theory Spec2Isabelle
  imports Main
begin

unbundle bit_operations_syntax

section \<open>The comparison gadgets of \<^verbatim>\<open>src/lib/provable/gadgets/comparison.ts\<close>\<close>

text \<open>
  The gadgets build an arithmetic circuit over the prime field with modulus \<open>p\<close>. The
  modulus is a constant of \<^verbatim>\<open>bindings/crypto/finite-field.js\<close>, which is not part of the
  sources at hand, so every definition takes \<open>p\<close> as a parameter and the theorems assume
  what they need of it (that it is prime, or large enough).
\<close>

subsection \<open>The field \<^verbatim>\<open>Fp\<close>\<close>

text \<open>
  Modelled from the spec: the field operations of \<^verbatim>\<open>Fp\<close> (finite-field.js is missing).
  A field element is an integer in \<open>[0, p)\<close> and all arithmetic is performed modulo \<open>p\<close>.
\<close>

definition Fp_mod :: "int \<Rightarrow> int \<Rightarrow> int" where
  "Fp_mod p x = x mod p"

definition Fp_add :: "int \<Rightarrow> int \<Rightarrow> int \<Rightarrow> int" where
  "Fp_add p x y = (x + y) mod p"

definition Fp_sub :: "int \<Rightarrow> int \<Rightarrow> int \<Rightarrow> int" where
  "Fp_sub p x y = (x - y) mod p"

definition Fp_mul :: "int \<Rightarrow> int \<Rightarrow> int \<Rightarrow> int" where
  "Fp_mul p x y = (x * y) mod p"

text \<open>
  Modelled from the spec: \<^verbatim>\<open>Fp.inverse\<close> (finite-field.js is missing). \<open>inverse(x)\<close> is the
  field element \<open>z\<close> with \<open>z \<sqdot> x = 1\<close>; there is none for \<open>x = 0\<close>, where the source's
  \<^verbatim>\<open>?? 0n\<close> takes over. The search below is the specification made executable.
\<close>

definition Fp_inverse :: "int \<Rightarrow> int \<Rightarrow> int option" where
  "Fp_inverse p x = find (\<lambda>z. Fp_mul p z x = 1) [0..p - 1]"

text \<open>
  Modelled from the spec: \<^verbatim>\<open>Fp.sizeInBits\<close>, the bit-width of \<open>p\<close> (finite-field.js is
  missing): the number of binary digits of the modulus.
\<close>

function sizeInBits :: "int \<Rightarrow> nat" where
  "sizeInBits p = (if p \<le> 0 then 0 else Suc (sizeInBits (p div 2)))"
  by pat_completeness auto
termination
  by (relation "measure nat") auto

declare sizeInBits.simps [simp del]

text \<open>Primality of the modulus, as a check that can be run.\<close>

definition is_prime :: "int \<Rightarrow> bool" where
  "is_prime p = (1 < p \<and> (\<forall>d \<in> {2..p - 1}. \<not> d dvd p))"

subsection \<open>Field elements, boolean wires, constraints\<close>

text \<open>
  Modelled from the spec: the \<^verbatim>\<open>Field\<close> abstraction (field.js is missing). A \<^verbatim>\<open>Field\<close> is
  either a constant or an expression over the wires of the circuit; \<^verbatim>\<open>x.add(y)\<close> is
  \<open>Add x y\<close>, \<^verbatim>\<open>x.sub(y)\<close> is \<open>Sub x y\<close> and \<^verbatim>\<open>x.mul(c)\<close> for a constant \<open>c\<close> is \<open>Scale c x\<close>;
  none of the three adds a constraint. \<^verbatim>\<open>x.toBigInt()\<close> reads the value of \<open>x\<close> from the
  witness values \<open>w\<close> of the wires, as a field element.
\<close>

datatype Field =
    Constant int
  | Var nat
  | Add Field Field
  | Sub Field Field
  | Scale int Field

fun toBigInt :: "int \<Rightarrow> (nat \<Rightarrow> int) \<Rightarrow> Field \<Rightarrow> int" where
  "toBigInt p w (Constant c) = Fp_mod p c"
| "toBigInt p w (Var i) = Fp_mod p (w i)"
| "toBigInt p w (Add a b) = Fp_add p (toBigInt p w a) (toBigInt p w b)"
| "toBigInt p w (Sub a b) = Fp_sub p (toBigInt p w a) (toBigInt p w b)"
| "toBigInt p w (Scale k a) = Fp_mul p k (toBigInt p w a)"

definition createField :: "int \<Rightarrow> int \<Rightarrow> Field" where
  "createField p c = Constant (Fp_mod p c)"

text \<open>
  Modelled from the spec: the \<^verbatim>\<open>Bool\<close> abstraction (bool.js is missing). \<^verbatim>\<open>createBool\<close>
  wraps a field variable as a boolean wire and \<^verbatim>\<open>toField\<close> unwraps it; neither adds a
  constraint.
\<close>

datatype Bool = createBool (toField: Field)

text \<open>
  Modelled from the spec: the constraints of the circuit under construction (the
  constraint system is missing): \<open>a \<sqdot> b = c\<close>, the boolean assertion on a wire, and the
  equality that sealing adds.
\<close>

datatype constraint =
    AssertMul Field Field Field
  | AssertBool Field
  | AssertEqual Field Field

datatype mode = ConstraintShape | Prover

record circuit =
  mode :: mode
  nextVar :: nat
  gates :: "constraint list"
  witness :: "nat \<Rightarrow> int"

text \<open>
  The errors: the two that the source raises itself (line 83 and line 64), the
  \<^verbatim>\<open>RangeError\<close> of \<^verbatim>\<open>BigInt(n)\<close> for a number that is not an integer, the \<^verbatim>\<open>TypeError\<close> of a
  method call on \<^verbatim>\<open>undefined\<close>, and the refusal of \<^verbatim>\<open>exists\<close> to yield a negative number of
  wires.
\<close>

datatype error =
    BitLengthTooLarge
  | ComparisonOutOfRange
  | RangeError
  | TypeError
  | InvalidArity

text \<open>
  Modelled from the spec: \<^verbatim>\<open>exists\<close> (core/exists.js is missing) yields \<open>n\<close> fresh
  witness-backed field elements; their values are computed, from the witness values so
  far, in prover mode only.
\<close>

definition exists :: "int \<Rightarrow> nat \<Rightarrow> ((nat \<Rightarrow> int) \<Rightarrow> int list) \<Rightarrow> circuit \<Rightarrow> Field list \<times> circuit" where
  "exists p n compute s =
     (let vs = [nextVar s ..< nextVar s + n];
          w = (case mode s of
                 ConstraintShape \<Rightarrow> witness s
               | Prover \<Rightarrow>
                   (\<lambda>v. if nextVar s \<le> v \<and> v < nextVar s + n
                        then Fp_mod p (compute (witness s) ! (v - nextVar s))
                        else witness s v))
      in (map Var vs, s\<lparr>nextVar := nextVar s + n, witness := w\<rparr>))"

text \<open>
  Modelled from the spec: \<^verbatim>\<open>asProver\<close> (core/provable-context.js is missing) runs its
  block in prover mode only; the block reads witness values and may throw.
\<close>

definition asProver :: "((nat \<Rightarrow> int) \<Rightarrow> error option) \<Rightarrow> circuit \<Rightarrow> (error + unit) \<times> circuit" where
  "asProver f s =
     (case mode s of
        ConstraintShape \<Rightarrow> (Inr (), s)
      | Prover \<Rightarrow> (case f (witness s) of None \<Rightarrow> (Inr (), s) | Some e \<Rightarrow> (Inl e, s)))"

text \<open>
  Modelled from the spec: \<^verbatim>\<open>assertMul\<close> (gadgets/compatible.js is missing) enforces
  \<open>a \<sqdot> b = c\<close>; \<^verbatim>\<open>assertBool\<close> is the boolean assertion of a field element; \<^verbatim>\<open>seal\<close> fixes
  an expression as a single constrained value.
\<close>

definition assertMul :: "Field \<Rightarrow> Field \<Rightarrow> Field \<Rightarrow> circuit \<Rightarrow> circuit" where
  "assertMul a b c s = s\<lparr>gates := gates s @ [AssertMul a b c]\<rparr>"

definition assertBool :: "Field \<Rightarrow> circuit \<Rightarrow> circuit" where
  "assertBool b s = s\<lparr>gates := gates s @ [AssertBool b]\<rparr>"

definition seal :: "int \<Rightarrow> Field \<Rightarrow> circuit \<Rightarrow> Field \<times> circuit" where
  "seal p x s =
     (let (vs, s1) = exists p 1 (\<lambda>w. [toBigInt p w x]) s;
          v = vs ! 0
      in (v, s1\<lparr>gates := gates s1 @ [AssertEqual x v]\<rparr>))"

text \<open>
  Modelled from the spec: \<^verbatim>\<open>not\<close> and \<^verbatim>\<open>and\<close> of boolean wires (bool.js is missing),
  expressed via field arithmetic: \<open>1 - b\<close>, and a fresh wire constrained to the product.
\<close>

definition Bool_not :: "int \<Rightarrow> Bool \<Rightarrow> Bool" where
  "Bool_not p b = createBool (Sub (createField p 1) (toField b))"

definition Bool_and :: "int \<Rightarrow> Bool \<Rightarrow> Bool \<Rightarrow> circuit \<Rightarrow> Bool \<times> circuit" where
  "Bool_and p a b s =
     (let (vs, s1) =
            exists p 1 (\<lambda>w. [Fp_mul p (toBigInt p w (toField a)) (toBigInt p w (toField b))]) s;
          z = vs ! 0
      in (createBool z, assertMul (toField a) (toField b) z s1))"

subsection \<open>The gadgets\<close>

text \<open>\<^verbatim>\<open>assertLessThanOrEqualGeneric\<close>, lines 28 to 37.\<close>

definition assertLessThanOrEqualGeneric ::
    "int \<Rightarrow> Field \<Rightarrow> Field \<Rightarrow> (Field \<Rightarrow> circuit \<Rightarrow> circuit) \<Rightarrow> circuit \<Rightarrow> circuit" where
  "assertLessThanOrEqualGeneric p x y rangeCheck s =
     (let (v, s1) = seal p (Sub y x) s in rangeCheck v s1)"

text \<open>\<^verbatim>\<open>assertLessThanGeneric\<close>, lines 44 to 53.\<close>

definition assertLessThanGeneric ::
    "int \<Rightarrow> Field \<Rightarrow> Field \<Rightarrow> (Field \<Rightarrow> circuit \<Rightarrow> circuit) \<Rightarrow> circuit \<Rightarrow> circuit" where
  "assertLessThanGeneric p x y rangeCheck s =
     (let (v, s1) = seal p (Sub (Sub y (createField p 1)) x) s in rangeCheck v s1)"

text \<open>\<^verbatim>\<open>checkRangesAsProver\<close>, lines 59 to 70.\<close>

definition checkRangesAsProver ::
    "int \<Rightarrow> Field \<Rightarrow> Field \<Rightarrow> int \<Rightarrow> circuit \<Rightarrow> (error + unit) \<times> circuit" where
  "checkRangesAsProver p x y c s =
     asProver
       (\<lambda>w. let x0 = toBigInt p w x;
                y0 = toBigInt p w y
            in if x0 \<ge> c \<or> y0 \<ge> c then Some ComparisonOutOfRange else None)
       s"

text \<open>\<^verbatim>\<open>isZero\<close>, lines 130 to 143.\<close>

definition isZero :: "int \<Rightarrow> Field \<Rightarrow> circuit \<Rightarrow> Bool \<times> circuit" where
  "isZero p x s =
     (let (bz, s1) =
            exists p 2
              (\<lambda>w. let xmy = toBigInt p w x;
                       z = (case Fp_inverse p xmy of Some i \<Rightarrow> i | None \<Rightarrow> 0);
                       b = Fp_sub p 1 (Fp_mul p z xmy)
                   in [b, z])
              s;
          b = bz ! 0;
          z = bz ! 1;
          s2 = assertMul b x (createField p 0) s1;
          s3 = assertMul z x (Sub (createField p 1) b) s2
      in (createBool b, s3))"

text \<open>\<^verbatim>\<open>any\<close>, lines 123 to 127.\<close>

definition any :: "int \<Rightarrow> Bool list \<Rightarrow> circuit \<Rightarrow> Bool \<times> circuit" where
  "any p xs s =
     (let sum = foldl (\<lambda>a b. Add a (toField b)) (createField p 0) xs;
          (allZero, s1) = isZero p sum s
      in (Bool_not p allZero, s1))"

text \<open>
  \<^verbatim>\<open>unpack\<close>, lines 109 to 121. \<^verbatim>\<open>reduce\<close> passes the index \<open>i\<close> of each bit along with
  it; \<^verbatim>\<open>1n << BigInt(i)\<close> is \<open>push_bit i 1\<close> and \<^verbatim>\<open>(x0 >> BigInt(k)) & 1n\<close> is
  \<open>drop_bit k x0 AND 1\<close>.
\<close>

definition unpack :: "int \<Rightarrow> Field \<Rightarrow> nat \<Rightarrow> circuit \<Rightarrow> Bool list \<times> circuit" where
  "unpack p x len s =
     (let (bits, s1) =
            exists p len
              (\<lambda>w. let x0 = toBigInt p w x in map (\<lambda>k. drop_bit k x0 AND 1) [0..<len])
              s;
          s2 = fold assertBool bits s1;
          lc = foldl (\<lambda>acc (b, i). Add acc (Scale (push_bit i 1) b))
                 (createField p 0) (zip bits [0..<length bits]);
          s3 = assertMul lc (createField p 1) x s2
      in (map createBool bits, s3))"

text \<open>
  The argument \<open>n\<close> of \<^verbatim>\<open>compareCompatible\<close> is a JavaScript number, which the source
  compares with the integer \<open>maxLength\<close> and converts with \<^verbatim>\<open>BigInt\<close>. A number is an integer,
  a finite number that is not an integer (\<open>Fraction k\<close> lies strictly between \<open>k\<close> and
  \<open>k + 1\<close>), \<^verbatim>\<open>NaN\<close> or an infinity.
\<close>

datatype number = Integer int | Fraction int | NaN | Infinity | NegInfinity

text \<open>\<^verbatim>\<open>n <= m\<close> for an integer \<open>m\<close>; every comparison with \<^verbatim>\<open>NaN\<close> is false.\<close>

fun number_le :: "number \<Rightarrow> int \<Rightarrow> bool" where
  "number_le (Integer k) m = (k \<le> m)"
| "number_le (Fraction k) m = (k < m)"
| "number_le NaN m = False"
| "number_le Infinity m = False"
| "number_le NegInfinity m = True"

text \<open>\<^verbatim>\<open>BigInt(n)\<close> throws a \<^verbatim>\<open>RangeError\<close> unless \<open>n\<close> is an integer.\<close>

fun BigInt :: "number \<Rightarrow> error + int" where
  "BigInt (Integer k) = Inr k"
| "BigInt (Fraction k) = Inl RangeError"
| "BigInt NaN = Inl RangeError"
| "BigInt Infinity = Inl RangeError"
| "BigInt NegInfinity = Inl RangeError"

text \<open>\<^verbatim>\<open>a << k\<close> on bigints: a negative \<open>k\<close> shifts to the right.\<close>

definition shiftLeft :: "int \<Rightarrow> int \<Rightarrow> int" where
  "shiftLeft a k = (if 0 \<le> k then push_bit (nat k) a else drop_bit (nat (- k)) a)"

text \<open>\<^verbatim>\<open>xs[k]\<close> is \<^verbatim>\<open>undefined\<close> outside the array.\<close>

definition element :: "'a list \<Rightarrow> int \<Rightarrow> 'a option" where
  "element xs k = (if 0 \<le> k \<and> nat k < length xs then Some (xs ! nat k) else None)"

text \<open>\<^verbatim>\<open>xs.slice(0, k)\<close>: a negative \<open>k\<close> counts from the end of the array.\<close>

definition slice0 :: "'a list \<Rightarrow> int \<Rightarrow> 'a list" where
  "slice0 xs k = (if 0 \<le> k then take (nat k) xs else take (length xs - nat (- k)) xs)"

text \<open>
  \<^verbatim>\<open>compareCompatible\<close>, lines 81 to 104. The source checks neither that \<open>n\<close> is an integer
  nor that it is not negative. \<^verbatim>\<open>unpack(z, n + 1)\<close> starts with \<^verbatim>\<open>exists(n + 1, ...)\<close>.
  Modelled from the spec: \<^verbatim>\<open>exists\<close> (core/exists.js is missing) yields that many fresh
  wires, so it has no result for a negative number and raises. \<^verbatim>\<open>lessOrEqual.and(...)\<close>
  on an \<^verbatim>\<open>undefined\<close> \<^verbatim>\<open>lessOrEqual\<close> is a \<^verbatim>\<open>TypeError\<close>. The default of \<open>n\<close> is
  \<open>Fp.sizeInBits - 2\<close>.
\<close>

definition compareCompatible ::
    "int \<Rightarrow> Field \<Rightarrow> Field \<Rightarrow> number \<Rightarrow> circuit \<Rightarrow> (error + Bool \<times> Bool) \<times> circuit" where
  "compareCompatible p x y n s =
     (let maxLength = int (sizeInBits p) - 2 in
      if \<not> number_le n maxLength then (Inl BitLengthTooLarge, s)
      else
        case BigInt n of
          Inl e \<Rightarrow> (Inl e, s)
        | Inr k \<Rightarrow>
            let c = shiftLeft 1 k in
            case checkRangesAsProver p x y c s of
              (Inl e, s0) \<Rightarrow> (Inl e, s0)
            | (Inr _, s0) \<Rightarrow>
                let z = Sub (Add (createField p c) y) x in
                if k + 1 < 0 then (Inl InvalidArity, s0)
                else
                  let (zBits, s1) = unpack p z (nat (k + 1)) s0;
                      lessOrEqual = element zBits k;
                      prefix = slice0 zBits k;
                      (notAllZeros, s2) = any p prefix s1
                  in case lessOrEqual of
                       None \<Rightarrow> (Inl TypeError, s2)
                     | Some lessOrEqual \<Rightarrow>
                         let (less, s3) = Bool_and p lessOrEqual notAllZeros s2
                         in (Inr (lessOrEqual, less), s3))"

definition compareCompatible_default ::
    "int \<Rightarrow> Field \<Rightarrow> Field \<Rightarrow> circuit \<Rightarrow> (error + Bool \<times> Bool) \<times> circuit" where
  "compareCompatible_default p x y s =
     compareCompatible p x y (Integer (int (sizeInBits p) - 2)) s"

subsection \<open>Satisfying assignments\<close>

text \<open>
  An assignment gives every wire a value. A multiplication constraint holds when the
  product of its first two arguments is the third, the boolean assertion of \<open>x\<close> is the
  constraint \<open>x \<sqdot> x = x\<close>, and the equality of sealing holds when both sides have the same
  value. \<open>emitted s s'\<close> are the constraints added between the circuit states \<open>s\<close> and \<open>s'\<close>.
\<close>

fun holds :: "int \<Rightarrow> (nat \<Rightarrow> int) \<Rightarrow> constraint \<Rightarrow> bool" where
  "holds p a (AssertMul x y z) = (Fp_mul p (toBigInt p a x) (toBigInt p a y) = toBigInt p a z)"
| "holds p a (AssertBool x) = (Fp_mul p (toBigInt p a x) (toBigInt p a x) = toBigInt p a x)"
| "holds p a (AssertEqual x y) = (toBigInt p a x = toBigInt p a y)"

definition satisfies :: "int \<Rightarrow> (nat \<Rightarrow> int) \<Rightarrow> constraint list \<Rightarrow> bool" where
  "satisfies p a cs = list_all (holds p a) cs"

definition emitted :: "circuit \<Rightarrow> circuit \<Rightarrow> constraint list" where
  "emitted s s' = drop (length (gates s)) (gates s')"

fun is_AssertBool :: "constraint \<Rightarrow> bool" where
  "is_AssertBool (AssertBool x) = True"
| "is_AssertBool c = False"

text \<open>\<open>allocated n x\<close>: the expression \<open>x\<close> mentions only wires below \<open>n\<close>.\<close>

fun allocated :: "nat \<Rightarrow> Field \<Rightarrow> bool" where
  "allocated n (Constant c) = True"
| "allocated n (Var i) = (i < n)"
| "allocated n (Add a b) = (allocated n a \<and> allocated n b)"
| "allocated n (Sub a b) = (allocated n a \<and> allocated n b)"
| "allocated n (Scale k a) = allocated n a"

text \<open>
  The constraints \<open>cs\<close> are satisfiable from \<open>a0\<close> when some assignment satisfies them
  that gives the wires below \<open>n\<close>, those that exist already, the values they have in \<open>a0\<close>.
\<close>

definition satisfiable_from :: "int \<Rightarrow> nat \<Rightarrow> (nat \<Rightarrow> int) \<Rightarrow> constraint list \<Rightarrow> bool" where
  "satisfiable_from p n a0 cs = (\<exists>a. (\<forall>i<n. a i = a0 i) \<and> satisfies p a cs)"

text \<open>
  What the comparison gadgets assume of the \<^verbatim>\<open>rangeCheck\<close> they are given: it only adds
  constraints, and the constraints it adds for \<open>v\<close> are satisfiable exactly from the
  assignments in which \<open>v\<close> is in \<open>[0, c)\<close>.
\<close>

definition asserts_range :: "int \<Rightarrow> int \<Rightarrow> (Field \<Rightarrow> circuit \<Rightarrow> circuit) \<Rightarrow> bool" where
  "asserts_range p c rangeCheck =
     (\<forall>v s a0. allocated (nextVar s) v \<longrightarrow>
        gates (rangeCheck v s) = gates s @ emitted s (rangeCheck v s)
      \<and> satisfiable_from p (nextVar s) a0 (emitted s (rangeCheck v s)) = (toBigInt p a0 v < c))"

subsection \<open>Names for parts of the gadgets\<close>

text \<open>The linear combination \<^verbatim>\<open>lc\<close> that \<^verbatim>\<open>unpack\<close> builds from its bits with \<^verbatim>\<open>reduce\<close>.\<close>

definition lc_of :: "int \<Rightarrow> Field list \<Rightarrow> Field" where
  "lc_of p bits = foldl (\<lambda>acc (b, i). Add acc (Scale (push_bit i 1) b))
                 (createField p 0) (zip bits [0..<length bits])"

text \<open>The sum that \<^verbatim>\<open>any\<close> builds from its bits with \<^verbatim>\<open>reduce\<close>.\<close>

definition sum_of :: "int \<Rightarrow> Bool list \<Rightarrow> Field" where
  "sum_of p xs = foldl (\<lambda>a b. Add a (toField b)) (createField p 0) xs"

text \<open>
  The values that the two wires returned by \<^verbatim>\<open>compareCompatible\<close> have in the witness of
  the circuit it leaves, or the error it raised.
\<close>

definition prover_values :: "int \<Rightarrow> (error + Bool \<times> Bool) \<times> circuit \<Rightarrow> error + int \<times> int" where
  "prover_values p r =
     (case r of
        (Inl e, s) \<Rightarrow> Inl e
      | (Inr (lessOrEqual, strictlyLess), s) \<Rightarrow>
          Inr (toBigInt p (witness s) (toField lessOrEqual),
               toBigInt p (witness s) (toField strictlyLess)))"

subsection \<open>Example circuits\<close>

text \<open>
  Two small circuit states, one of each pass, with the wires \<open>0\<close> and \<open>1\<close> as inputs;
  in the prover's pass they hold \<open>3\<close> and \<open>5\<close>.
\<close>

definition example_prover :: circuit where
  "example_prover =
     \<lparr>mode = Prover, nextVar = 2, gates = [],
      witness = (\<lambda>i. if i = 0 then 3 else if i = 1 then 5 else 0)\<rparr>"

definition example_shape :: circuit where
  "example_shape = \<lparr>mode = ConstraintShape, nextVar = 2, gates = [], witness = (\<lambda>i. 0)\<rparr>"

section \<open>Properties\<close>

subsection \<open>Field arithmetic\<close>

lemma toBigInt_range: "0 < p \<Longrightarrow> 0 \<le> toBigInt p w x \<and> toBigInt p w x < p"
  by (cases x) (simp_all add: Fp_mod_def Fp_add_def Fp_sub_def Fp_mul_def)

lemma toBigInt_mod: "0 < p \<Longrightarrow> toBigInt p w x mod p = toBigInt p w x"
  using toBigInt_range [of p w x] by simp

lemma toBigInt_cong:
  "allocated n x \<Longrightarrow> (\<And>i. i < n \<Longrightarrow> w i = w' i) \<Longrightarrow> toBigInt p w x = toBigInt p w' x"
  by (induction x) simp_all

lemma is_prime_gt1: "is_prime p \<Longrightarrow> 1 < p"
  by (simp add: is_prime_def)

lemma is_prime_coprime:
  assumes "is_prime p" and "\<not> p dvd a"
  shows "coprime p a"
proof -
  let ?g = "gcd p a"
  have p1: "1 < p" using assms(1) by (rule is_prime_gt1)
  have g0: "0 \<le> ?g" by simp
  have gp: "?g dvd p" by simp
  then have gle: "?g \<le> p" using p1 by (intro zdvd_imp_le) simp_all
  have "?g \<noteq> 0" using p1 by simp
  moreover have "?g \<noteq> p" using assms(2) by (metis gcd_dvd2)
  moreover have "\<not> (2 \<le> ?g \<and> ?g \<le> p - 1)"
    using assms(1) gp by (auto simp: is_prime_def)
  ultimately have "?g = 1" using g0 gle by linarith
  then show ?thesis by (simp add: coprime_iff_gcd_eq_1)
qed

lemma is_prime_dvd_mult:
  assumes "is_prime p" and "p dvd a * b"
  shows "p dvd a \<or> p dvd b"
proof (cases "p dvd a")
  case False
  then have "coprime p a" using assms(1) by (rule is_prime_coprime [rotated])
  then show ?thesis using assms(2) by (simp add: coprime_dvd_mult_right_iff)
qed simp

lemma Fp_mul_zero:
  assumes "is_prime p" and "Fp_mul p a b = 0"
  shows "a mod p = 0 \<or> b mod p = 0"
  using is_prime_dvd_mult [OF assms(1), of a b] assms(2)
  by (simp add: Fp_mul_def dvd_eq_mod_eq_0)

lemma Fp_inverse_Some:
  assumes "is_prime p" and "x mod p \<noteq> 0"
  shows "\<exists>z. Fp_inverse p x = Some z \<and> Fp_mul p z x = 1"
proof -
  have p1: "1 < p" using assms(1) by (rule is_prime_gt1)
  have "\<not> p dvd x" using assms(2) by (simp add: dvd_eq_mod_eq_0)
  then have "coprime p x" using assms(1) by (rule is_prime_coprime [rotated])
  then have "gcd p x = 1" by (simp add: coprime_iff_gcd_eq_1)
  then obtain u v where uv: "u * p + v * x = 1" using bezout_int [of p x] by auto
  have "(v mod p * x) mod p = (u * p + v * x) mod p"
    by (simp add: mod_mult_left_eq)
  then have "Fp_mul p (v mod p) x = 1" using uv p1 by (simp add: Fp_mul_def)
  moreover have "v mod p \<in> set [0..p - 1]" using p1 by simp
  ultimately have "find (\<lambda>z. Fp_mul p z x = 1) [0..p - 1] \<noteq> None"
    by (auto simp: find_None_iff)
  then obtain z where z: "find (\<lambda>z. Fp_mul p z x = 1) [0..p - 1] = Some z" by auto
  then have "Fp_mul p z x = 1" by (auto simp: find_Some_iff)
  with z show ?thesis by (simp add: Fp_inverse_def)
qed

lemma Fp_inverse_zero: "1 < p \<Longrightarrow> Fp_inverse p 0 = None"
  by (simp add: Fp_inverse_def find_None_iff Fp_mul_def)

lemma is_prime_7: "is_prime 7"
  unfolding is_prime_def by code_simp

lemma sizeInBits_7: "sizeInBits 7 = 3"
  by (simp add: sizeInBits.simps)

subsection \<open>\<^verbatim>\<open>isZero\<close>\<close>

lemma upt_two: "[n..<n + 2] = [n, Suc n]"
  by (simp add: upt_rec)

lemma isZero_fst: "fst (isZero p x s) = createBool (Var (nextVar s))"
  by (simp add: isZero_def exists_def Let_def upt_two split: prod.splits)

lemma isZero_gates:
  "gates (snd (isZero p x s)) =
     gates s @ [AssertMul (Var (nextVar s)) x (createField p 0),
                AssertMul (Var (Suc (nextVar s))) x (Sub (createField p 1) (Var (nextVar s)))]"
  by (simp add: isZero_def exists_def Let_def upt_two assertMul_def split: prod.splits)

lemma isZero_emitted:
  "emitted s (snd (isZero p x s)) =
     [AssertMul (Var (nextVar s)) x (createField p 0),
      AssertMul (Var (Suc (nextVar s))) x (Sub (createField p 1) (Var (nextVar s)))]"
  by (simp add: emitted_def isZero_gates)

lemma isZero_nextVar: "nextVar (snd (isZero p x s)) = nextVar s + 2"
  by (simp add: isZero_def exists_def Let_def assertMul_def split: prod.splits)

lemma isZero_mode: "mode (snd (isZero p x s)) = mode s"
  by (simp add: isZero_def exists_def Let_def assertMul_def split: prod.splits)

lemma isZero_frame: "i < nextVar s \<Longrightarrow> witness (snd (isZero p x s)) i = witness s i"
  by (simp add: isZero_def exists_def Let_def assertMul_def split: prod.splits mode.splits)

lemma isZero_sound:
  assumes p: "is_prime p"
    and c1: "holds p a (AssertMul b x (createField p 0))"
    and c2: "holds p a (AssertMul z x (Sub (createField p 1) b))"
  shows "toBigInt p a b = (if toBigInt p a x = 0 then 1 else 0)"
proof -
  have p1: "1 < p" using p by (rule is_prime_gt1)
  let ?b = "toBigInt p a b" and ?x = "toBigInt p a x" and ?z = "toBigInt p a z"
  have rb: "0 \<le> ?b" "?b < p" and rx: "0 \<le> ?x" "?x < p"
    using toBigInt_range [of p a b] toBigInt_range [of p a x] p1 by simp_all
  have e1: "(?b * ?x) mod p = 0"
    using c1 p1 by (simp add: Fp_mul_def createField_def Fp_mod_def)
  have e2: "(?z * ?x) mod p = (1 - ?b) mod p"
    using c2 p1 by (simp add: Fp_mul_def createField_def Fp_mod_def Fp_sub_def)
  show ?thesis
  proof (cases "?x = 0")
    case True
    then have "(1 - ?b) mod p = 0" using e2 by simp
    then have "p dvd (1 - ?b)" by (simp add: dvd_eq_mod_eq_0)
    moreover have "\<bar>1 - ?b\<bar> < p" using rb p1 by linarith
    ultimately have "1 - ?b = 0" using zdvd_not_zless [of "\<bar>1 - ?b\<bar>" p]
      by (metis abs_0_eq dvd_abs_iff zdvd_not_zless zero_less_abs_iff abs_ge_zero order_le_less)
    then show ?thesis using True by simp
  next
    case False
    have "Fp_mul p ?b ?x = 0" using e1 by (simp add: Fp_mul_def)
    then have "?b mod p = 0 \<or> ?x mod p = 0" using p by (rule Fp_mul_zero [rotated])
    then have "?b = 0" using rb rx False by simp
    then show ?thesis using False by simp
  qed
qed

lemma isZero_prover:
  assumes p: "is_prime p" and m: "mode s = Prover" and al: "allocated (nextVar s) x"
  shows "toBigInt p (witness (snd (isZero p x s))) (toField (fst (isZero p x s))) =
           (if toBigInt p (witness s) x = 0 then 1 else 0)"
    and "satisfies p (witness (snd (isZero p x s))) (emitted s (snd (isZero p x s)))"
proof -
  have p1: "1 < p" using p by (rule is_prime_gt1)
  let ?n = "nextVar s"
  let ?x = "toBigInt p (witness s) x"
  let ?z = "case Fp_inverse p ?x of Some i \<Rightarrow> i | None \<Rightarrow> 0"
  let ?b = "Fp_sub p 1 (Fp_mul p ?z ?x)"
  let ?w = "witness (snd (isZero p x s))"
  have wb: "?w ?n = Fp_mod p ?b" and wz: "?w (Suc ?n) = Fp_mod p ?z"
    using m by (simp_all add: isZero_def exists_def Let_def assertMul_def split: prod.splits)
  have wx: "toBigInt p ?w x = ?x"
    by (rule toBigInt_cong [OF al]) (simp add: isZero_frame)
  have rx: "0 \<le> ?x" "?x < p" using toBigInt_range [of p "witness s" x] p1 by simp_all
  have zx: "Fp_mul p ?z ?x = (if ?x = 0 then 0 else 1)"
  proof (cases "?x = 0")
    case True
    then show ?thesis by (simp add: Fp_mul_def)
  next
    case False
    then have "?x mod p \<noteq> 0" using rx by simp
    then obtain z where "Fp_inverse p ?x = Some z" "Fp_mul p z ?x = 1"
      using Fp_inverse_Some [OF p] by blast
    then show ?thesis using False by simp
  qed
  have bv: "Fp_mod p ?b = (if ?x = 0 then 1 else 0)"
    unfolding Fp_sub_def Fp_mod_def zx using p1 by simp
  have wb': "?w ?n = (if ?x = 0 then 1 else 0)"
    using wb bv by simp
  show g1: "toBigInt p ?w (toField (fst (isZero p x s))) = (if ?x = 0 then 1 else 0)"
    using p1 by (simp add: isZero_fst wb' Fp_mod_def)
  have h1: "holds p ?w (AssertMul (Var ?n) x (createField p 0))"
    using p1 by (simp add: wx wb' Fp_mod_def Fp_mul_def createField_def)
  have "(Fp_mod p ?z * ?x) mod p = Fp_mul p ?z ?x"
    by (simp add: Fp_mod_def Fp_mul_def mod_mult_left_eq)
  then have zw: "(?w (Suc ?n) mod p * ?x) mod p = (if ?x = 0 then 0 else 1)"
    unfolding wz zx by (simp add: Fp_mod_def)
  have h2: "holds p ?w (AssertMul (Var (Suc ?n)) x (Sub (createField p 1) (Var ?n)))"
    using p1 zw by (simp add: wx wb' Fp_mod_def Fp_mul_def Fp_sub_def createField_def)
  show "satisfies p ?w (emitted s (snd (isZero p x s)))"
    using h1 h2 by (simp add: satisfies_def isZero_emitted)
qed

text \<open>
  Claim C5. \<^verbatim>\<open>isZero(x)\<close> emits exactly the two constraints \<open>b \<sqdot> x = 0\<close> and
  \<open>z \<sqdot> x = 1 - b\<close>. In every assignment that satisfies them the returned wire \<open>b\<close> is \<open>1\<close>
  if \<open>x = 0\<close> and \<open>0\<close> otherwise, whatever the values of the witnesses. In prover mode the
  witness values that \<^verbatim>\<open>isZero\<close> computes satisfy both constraints, and \<open>b\<close> has that value.
\<close>

theorem isZero_forces_result:
  assumes "is_prime p"
  shows "emitted s (snd (isZero p x s)) =
           [AssertMul (toField (fst (isZero p x s))) x (createField p 0),
            AssertMul (Var (Suc (nextVar s))) x
              (Sub (createField p 1) (toField (fst (isZero p x s))))]
       \<and> (\<forall>a. satisfies p a (emitted s (snd (isZero p x s))) \<longrightarrow>
              toBigInt p a (toField (fst (isZero p x s))) =
                (if toBigInt p a x = 0 then 1 else 0))
       \<and> (mode s = Prover \<and> allocated (nextVar s) x \<longrightarrow>
              satisfies p (witness (snd (isZero p x s))) (emitted s (snd (isZero p x s)))
            \<and> toBigInt p (witness (snd (isZero p x s))) (toField (fst (isZero p x s))) =
                (if toBigInt p (witness s) x = 0 then 1 else 0))"
proof (intro conjI allI impI)
  show "emitted s (snd (isZero p x s)) =
           [AssertMul (toField (fst (isZero p x s))) x (createField p 0),
            AssertMul (Var (Suc (nextVar s))) x
              (Sub (createField p 1) (toField (fst (isZero p x s))))]"
    by (simp add: isZero_emitted isZero_fst)
next
  fix a
  assume "satisfies p a (emitted s (snd (isZero p x s)))"
  then have "holds p a (AssertMul (Var (nextVar s)) x (createField p 0))"
    and "holds p a (AssertMul (Var (Suc (nextVar s))) x (Sub (createField p 1) (Var (nextVar s))))"
    by (simp_all add: satisfies_def isZero_emitted)
  then show "toBigInt p a (toField (fst (isZero p x s))) = (if toBigInt p a x = 0 then 1 else 0)"
    unfolding isZero_fst Bool.sel by (rule isZero_sound [OF assms])
next
  assume h: "mode s = Prover \<and> allocated (nextVar s) x"
  then show "satisfies p (witness (snd (isZero p x s))) (emitted s (snd (isZero p x s)))"
    using isZero_prover(2) [OF assms] by blast
  from h show "toBigInt p (witness (snd (isZero p x s))) (toField (fst (isZero p x s))) =
                (if toBigInt p (witness s) x = 0 then 1 else 0)"
    using isZero_prover(1) [OF assms] by blast
qed

theorem isZero_forces_result_witness:
  "is_prime 7
   \<and> mode example_prover = Prover \<and> allocated (nextVar example_prover) (Var 0)
   \<and> toBigInt 7 (witness example_prover) (Var 0) = 3
   \<and> toBigInt 7 (witness (snd (isZero 7 (Var 0) example_prover)))
        (toField (fst (isZero 7 (Var 0) example_prover))) = 0
   \<and> satisfies 7 (witness (snd (isZero 7 (Var 0) example_prover)))
        (emitted example_prover (snd (isZero 7 (Var 0) example_prover)))"
proof -
  have m: "mode example_prover = Prover \<and> allocated (nextVar example_prover) (Var 0)"
    by (simp add: example_prover_def)
  have v: "toBigInt 7 (witness example_prover) (Var 0) = 3"
    by (simp add: example_prover_def Fp_mod_def)
  from isZero_forces_result [OF is_prime_7, of example_prover "Var 0"] m
  have "satisfies 7 (witness (snd (isZero 7 (Var 0) example_prover)))
          (emitted example_prover (snd (isZero 7 (Var 0) example_prover)))
      \<and> toBigInt 7 (witness (snd (isZero 7 (Var 0) example_prover)))
          (toField (fst (isZero 7 (Var 0) example_prover))) =
            (if toBigInt 7 (witness example_prover) (Var 0) = 0 then 1 else 0)"
    by blast
  then show ?thesis
    using m v is_prime_7 by simp
qed

text \<open>
  Claim C10. \<^verbatim>\<open>isZero\<close> returns a fresh wire \<open>b\<close> and emits exactly two constraints, the
  multiplications \<open>b \<sqdot> x = 0\<close> and \<open>z \<sqdot> x = 1 - b\<close>; none of them is a boolean assertion.
  These two constraints alone force \<open>b\<close> to be \<open>0\<close> or \<open>1\<close> in every assignment that satisfies
  them, for every input \<open>x\<close>.
\<close>

theorem isZero_boolean_without_assertBool:
  assumes "is_prime p"
  shows "toField (fst (isZero p x s)) = Var (nextVar s)
       \<and> emitted s (snd (isZero p x s)) =
           [AssertMul (Var (nextVar s)) x (createField p 0),
            AssertMul (Var (Suc (nextVar s))) x (Sub (createField p 1) (Var (nextVar s)))]
       \<and> \<not> list_ex is_AssertBool (emitted s (snd (isZero p x s)))
       \<and> (\<forall>a. holds p a (AssertMul (Var (nextVar s)) x (createField p 0))
              \<and> holds p a (AssertMul (Var (Suc (nextVar s))) x
                    (Sub (createField p 1) (Var (nextVar s)))) \<longrightarrow>
              toBigInt p a (Var (nextVar s)) = 0 \<or> toBigInt p a (Var (nextVar s)) = 1)
       \<and> (\<forall>a. satisfies p a (emitted s (snd (isZero p x s))) \<longrightarrow>
              toBigInt p a (toField (fst (isZero p x s))) = 0
            \<or> toBigInt p a (toField (fst (isZero p x s))) = 1)"
proof (intro conjI allI impI)
  show "toField (fst (isZero p x s)) = Var (nextVar s)"
    by (simp add: isZero_fst)
next
  show "emitted s (snd (isZero p x s)) =
           [AssertMul (Var (nextVar s)) x (createField p 0),
            AssertMul (Var (Suc (nextVar s))) x (Sub (createField p 1) (Var (nextVar s)))]"
    by (rule isZero_emitted)
next
  show "\<not> list_ex is_AssertBool (emitted s (snd (isZero p x s)))"
    by (simp add: isZero_emitted)
next
  fix a
  assume h: "holds p a (AssertMul (Var (nextVar s)) x (createField p 0))
              \<and> holds p a (AssertMul (Var (Suc (nextVar s))) x
                    (Sub (createField p 1) (Var (nextVar s))))"
  have "toBigInt p a (Var (nextVar s)) = (if toBigInt p a x = 0 then 1 else 0)"
    by (rule isZero_sound [OF assms conjunct1 [OF h] conjunct2 [OF h]])
  then show "toBigInt p a (Var (nextVar s)) = 0 \<or> toBigInt p a (Var (nextVar s)) = 1"
    by (simp split: if_splits)
next
  fix a
  assume "satisfies p a (emitted s (snd (isZero p x s)))"
  then have "holds p a (AssertMul (Var (nextVar s)) x (createField p 0))"
    and "holds p a (AssertMul (Var (Suc (nextVar s))) x (Sub (createField p 1) (Var (nextVar s))))"
    by (simp_all add: satisfies_def isZero_emitted)
  then have "toBigInt p a (Var (nextVar s)) = (if toBigInt p a x = 0 then 1 else 0)"
    by (rule isZero_sound [OF assms])
  then show "toBigInt p a (toField (fst (isZero p x s))) = 0
            \<or> toBigInt p a (toField (fst (isZero p x s))) = 1"
    unfolding isZero_fst Bool.sel by (simp split: if_splits)
qed

theorem isZero_boolean_without_assertBool_witness:
  "is_prime 7
   \<and> emitted example_shape (snd (isZero 7 (Var 0) example_shape)) =
       [AssertMul (Var 2) (Var 0) (createField 7 0),
        AssertMul (Var 3) (Var 0) (Sub (createField 7 1) (Var 2))]
   \<and> holds 7 (\<lambda>i. if i = 3 then 5 else if i = 0 then 3 else 0)
        (AssertMul (Var 2) (Var 0) (createField 7 0))
   \<and> holds 7 (\<lambda>i. if i = 3 then 5 else if i = 0 then 3 else 0)
        (AssertMul (Var 3) (Var 0) (Sub (createField 7 1) (Var 2)))
   \<and> toBigInt 7 (\<lambda>i. if i = 3 then 5 else if i = 0 then 3 else 0) (Var 2) = 0
   \<and> holds 7 (\<lambda>i. if i = 2 then 1 else 0) (AssertMul (Var 2) (Var 0) (createField 7 0))
   \<and> holds 7 (\<lambda>i. if i = 2 then 1 else 0)
        (AssertMul (Var 3) (Var 0) (Sub (createField 7 1) (Var 2)))
   \<and> toBigInt 7 (\<lambda>i. if i = 2 then 1 else 0) (Var 2) = 1"
proof -
  have n: "nextVar example_shape = 2" "Suc 2 = 3"
    by (simp_all add: example_shape_def)
  note t = isZero_boolean_without_assertBool [OF is_prime_7, of "Var 0" example_shape,
      unfolded n]
  have e: "emitted example_shape (snd (isZero 7 (Var 0) example_shape)) =
       [AssertMul (Var 2) (Var 0) (createField 7 0),
        AssertMul (Var 3) (Var 0) (Sub (createField 7 1) (Var 2))]"
    using t by blast
  have h1: "holds 7 (\<lambda>i. if i = 3 then 5 else if i = 0 then 3 else 0)
              (AssertMul (Var 2) (Var 0) (createField 7 0))
          \<and> holds 7 (\<lambda>i. if i = 3 then 5 else if i = 0 then 3 else 0)
              (AssertMul (Var 3) (Var 0) (Sub (createField 7 1) (Var 2)))"
    by (simp add: Fp_mul_def Fp_mod_def Fp_sub_def createField_def)
  have h2: "holds 7 (\<lambda>i. if i = 2 then 1 else 0) (AssertMul (Var 2) (Var 0) (createField 7 0))
          \<and> holds 7 (\<lambda>i. if i = 2 then 1 else 0)
              (AssertMul (Var 3) (Var 0) (Sub (createField 7 1) (Var 2)))"
    by (simp add: Fp_mul_def Fp_mod_def Fp_sub_def createField_def)
  have v1: "toBigInt 7 (\<lambda>i. if i = 3 then 5 else if i = 0 then 3 else 0) (Var 2) \<noteq> 1"
    and v2: "toBigInt 7 (\<lambda>i. if i = 2 then 1 else 0) (Var 2) \<noteq> 0"
    by (simp_all add: Fp_mod_def)
  from t h1 have "toBigInt 7 (\<lambda>i. if i = 3 then 5 else if i = 0 then 3 else 0) (Var 2) = 0
      \<or> toBigInt 7 (\<lambda>i. if i = 3 then 5 else if i = 0 then 3 else 0) (Var 2) = 1"
    by blast
  then have r1: "toBigInt 7 (\<lambda>i. if i = 3 then 5 else if i = 0 then 3 else 0) (Var 2) = 0"
    using v1 by blast
  from t h2 have "toBigInt 7 (\<lambda>i. if i = 2 then 1 else 0) (Var 2) = 0
      \<or> toBigInt 7 (\<lambda>i. if i = 2 then 1 else 0) (Var 2) = 1"
    by blast
  then have r2: "toBigInt 7 (\<lambda>i. if i = 2 then 1 else 0) (Var 2) = 1"
    using v2 by blast
  show ?thesis using is_prime_7 e h1 h2 r1 r2 by blast
qed

subsection \<open>\<^verbatim>\<open>checkRangesAsProver\<close>\<close>

text \<open>
  Claim C7. \<^verbatim>\<open>checkRangesAsProver(x, y, c)\<close> raises its error exactly when the pass is the
  prover's and the value of \<open>x\<close> or of \<open>y\<close> is at least \<open>c\<close>; it returns normally in the
  constraint-shape pass and when both values are below \<open>c\<close>; and in every case it leaves
  the circuit as it was, so it adds no constraint.
\<close>

theorem checkRangesAsProver_raises:
  "(fst (checkRangesAsProver p x y c s) = Inl ComparisonOutOfRange) =
     (mode s = Prover \<and> (toBigInt p (witness s) x \<ge> c \<or> toBigInt p (witness s) y \<ge> c))
   \<and> (fst (checkRangesAsProver p x y c s) = Inr ()) =
     (mode s = ConstraintShape \<or> (toBigInt p (witness s) x < c \<and> toBigInt p (witness s) y < c))
   \<and> snd (checkRangesAsProver p x y c s) = s"
  by (cases "mode s") (auto simp: checkRangesAsProver_def asProver_def Let_def)

theorem checkRangesAsProver_raises_witness:
  "fst (checkRangesAsProver 7 (Var 0) (Var 1) 4 example_prover) = Inl ComparisonOutOfRange
   \<and> fst (checkRangesAsProver 7 (Var 0) (Var 1) 4 example_shape) = Inr ()
   \<and> snd (checkRangesAsProver 7 (Var 0) (Var 1) 4 example_prover) = example_prover"
proof -
  have "toBigInt 7 (witness example_prover) (Var 1) \<ge> 4" "mode example_prover = Prover"
    "mode example_shape = ConstraintShape"
    by (simp_all add: example_prover_def example_shape_def Fp_mod_def)
  then show ?thesis
    using checkRangesAsProver_raises [of 7 "Var 0" "Var 1" 4 example_prover]
      checkRangesAsProver_raises [of 7 "Var 0" "Var 1" 4 example_shape]
    by simp
qed

subsection \<open>\<^verbatim>\<open>unpack\<close>\<close>

lemma fold_assertBool: "fold assertBool bs s = s\<lparr>gates := gates s @ map AssertBool bs\<rparr>"
  by (induction bs arbitrary: s) (simp_all add: assertBool_def)

lemma unpack_fst: "fst (unpack p x len s) = map (\<lambda>i. createBool (Var i)) [nextVar s..<nextVar s + len]"
  by (simp add: unpack_def exists_def Let_def split: prod.splits)

lemma unpack_length: "length (fst (unpack p x len s)) = len"
  by (simp add: unpack_fst)

lemma unpack_nth: "i < len \<Longrightarrow> fst (unpack p x len s) ! i = createBool (Var (nextVar s + i))"
  by (simp add: unpack_fst)

lemma unpack_gates:
  "gates (snd (unpack p x len s)) =
     gates s @ map AssertBool (map Var [nextVar s..<nextVar s + len])
       @ [AssertMul (lc_of p (map Var [nextVar s..<nextVar s + len])) (createField p 1) x]"
  by (simp add: unpack_def exists_def Let_def fold_assertBool assertMul_def lc_of_def
      split: prod.splits)

lemma unpack_emitted:
  "emitted s (snd (unpack p x len s)) =
     map AssertBool (map Var [nextVar s..<nextVar s + len])
       @ [AssertMul (lc_of p (map Var [nextVar s..<nextVar s + len])) (createField p 1) x]"
  by (simp add: emitted_def unpack_gates)

lemma unpack_nextVar: "nextVar (snd (unpack p x len s)) = nextVar s + len"
  by (simp add: unpack_def exists_def Let_def fold_assertBool assertMul_def split: prod.splits)

lemma unpack_mode: "mode (snd (unpack p x len s)) = mode s"
  by (simp add: unpack_def exists_def Let_def fold_assertBool assertMul_def split: prod.splits)

lemma unpack_frame: "i < nextVar s \<Longrightarrow> witness (snd (unpack p x len s)) i = witness s i"
  by (simp add: unpack_def exists_def Let_def fold_assertBool assertMul_def
      split: prod.splits mode.splits)

lemma unpack_witness:
  "mode s = Prover \<Longrightarrow> i < len \<Longrightarrow>
     witness (snd (unpack p x len s)) (nextVar s + i) =
       Fp_mod p (drop_bit i (toBigInt p (witness s) x) AND 1)"
  by (simp add: unpack_def exists_def Let_def fold_assertBool assertMul_def
      split: prod.splits)

lemma foldl_lc:
  assumes "0 < p"
  shows "toBigInt p a (foldl (\<lambda>acc (b, i). Add acc (Scale (push_bit i 1) b)) acc
            (zip bs [k..<k + length bs])) =
         (toBigInt p a acc + (\<Sum>j<length bs. toBigInt p a (bs ! j) * 2 ^ (k + j))) mod p"
proof (induction bs arbitrary: acc k)
  case Nil
  then show ?case using assms by (simp add: toBigInt_mod)
next
  case (Cons b bs)
  have u: "[k..<k + length (b # bs)] = k # [Suc k..<Suc k + length bs]"
    by (simp add: upt_rec)
  have "toBigInt p a (foldl (\<lambda>acc (b, i). Add acc (Scale (push_bit i 1) b)) acc
            (zip (b # bs) [k..<k + length (b # bs)])) =
        (toBigInt p a (Add acc (Scale (push_bit k 1) b))
           + (\<Sum>j<length bs. toBigInt p a (bs ! j) * 2 ^ (Suc k + j))) mod p"
    unfolding u using Cons.IH [of "Add acc (Scale (push_bit k 1) b)" "Suc k"] by simp
  also have "\<dots> = (toBigInt p a acc + toBigInt p a b * 2 ^ k
           + (\<Sum>j<length bs. toBigInt p a (bs ! j) * 2 ^ (Suc k + j))) mod p"
    by (simp add: Fp_add_def Fp_mul_def push_bit_eq_mult mod_simps mult.commute)
  also have "\<dots> = (toBigInt p a acc
           + (\<Sum>j<length (b # bs). toBigInt p a ((b # bs) ! j) * 2 ^ (k + j))) mod p"
    by (simp add: sum.lessThan_Suc_shift add.assoc del: sum.lessThan_Suc)
  finally show ?case .
qed

lemma lc_of_value:
  assumes "0 < p"
  shows "toBigInt p a (lc_of p bs) = (\<Sum>j<length bs. toBigInt p a (bs ! j) * 2 ^ j) mod p"
  using foldl_lc [OF assms, of a "createField p 0" bs 0]
  by (simp add: lc_of_def createField_def Fp_mod_def)

lemma bits_sum_bound:
  fixes f :: "nat \<Rightarrow> int"
  assumes "\<And>i. i < n \<Longrightarrow> f i = 0 \<or> f i = 1"
  shows "0 \<le> (\<Sum>i<n. f i * 2 ^ i) \<and> (\<Sum>i<n. f i * 2 ^ i) < 2 ^ n"
  using assms
proof (induction n)
  case 0
  then show ?case by simp
next
  case (Suc n)
  have "f n = 0 \<or> f n = 1" using Suc.prems by simp
  moreover have "0 \<le> (\<Sum>i<n. f i * 2 ^ i) \<and> (\<Sum>i<n. f i * 2 ^ i) < 2 ^ n"
    using Suc.IH Suc.prems by simp
  ultimately show ?case by auto
qed

lemma bits_sum_digits:
  fixes x :: int
  shows "(\<Sum>i<n. (drop_bit i x AND 1) * 2 ^ i) = x mod 2 ^ n"
proof (induction n)
  case 0
  then show ?case by simp
next
  case (Suc n)
  have "x mod 2 ^ Suc n = 2 ^ n * (x div 2 ^ n mod 2) + x mod 2 ^ n"
    using zmod_zmult2_eq [of 2 x "2 ^ n"] by (simp add: mult.commute)
  then show ?case using Suc.IH by (simp add: and_one_eq drop_bit_eq_div)
qed

lemma assertBool_holds:
  assumes "is_prime p" and "holds p a (AssertBool x)"
  shows "toBigInt p a x = 0 \<or> toBigInt p a x = 1"
proof -
  have p1: "1 < p" using assms(1) by (rule is_prime_gt1)
  let ?v = "toBigInt p a x"
  have r: "0 \<le> ?v" "?v < p" using toBigInt_range [of p a x] p1 by simp_all
  have "(?v * ?v) mod p = ?v mod p" using assms(2) r by (simp add: Fp_mul_def)
  then have "(?v * ?v - ?v) mod p = 0"
    by (metis mod_diff_cong mod_self cancel_comm_monoid_add_class.diff_cancel mod_0)
  then have "Fp_mul p ?v (?v - 1) = 0"
    by (simp add: Fp_mul_def algebra_simps)
  then have "?v mod p = 0 \<or> (?v - 1) mod p = 0"
    using assms(1) by (rule Fp_mul_zero [rotated])
  moreover have "(?v - 1) mod p = 0 \<Longrightarrow> ?v = 1"
  proof -
    assume h: "(?v - 1) mod p = 0"
    show "?v = 1"
    proof (cases "?v = 0")
      case True
      then have "(- 1) mod p = 0" using h by simp
      then show ?thesis using p1 by (simp add: zmod_minus1)
    next
      case False
      then have "(?v - 1) mod p = ?v - 1" using r by simp
      then show ?thesis using h by simp
    qed
  qed
  ultimately show ?thesis using r by auto
qed

lemma lc_of_vars_value:
  assumes "0 < p"
  shows "toBigInt p a (lc_of p (map Var [n..<n + len])) =
           (\<Sum>j<len. toBigInt p a (Var (n + j)) * 2 ^ j) mod p"
proof -
  have "(\<Sum>j<length (map Var [n..<n + len]). toBigInt p a (map Var [n..<n + len] ! j) * 2 ^ j) =
        (\<Sum>j<len. toBigInt p a (Var (n + j)) * 2 ^ j)"
    by (rule sum.cong) simp_all
  then show ?thesis using lc_of_value [OF assms, of a "map Var [n..<n + len]"] by simp
qed

lemma unpack_bit_boolean:
  assumes "is_prime p" and "satisfies p a (emitted s (snd (unpack p x len s)))" and "i < len"
  shows "toBigInt p a (Var (nextVar s + i)) = 0 \<or> toBigInt p a (Var (nextVar s + i)) = 1"
proof -
  have m: "AssertBool (Var (nextVar s + i))
             \<in> set (map AssertBool (map Var [nextVar s..<nextVar s + len]))"
    using assms(3) by simp
  have "list_all (holds p a) (map AssertBool (map Var [nextVar s..<nextVar s + len]))"
    using assms(2) unfolding satisfies_def unpack_emitted list_all_append by blast
  then have "\<forall>c \<in> set (map AssertBool (map Var [nextVar s..<nextVar s + len])). holds p a c"
    unfolding list_all_iff .
  then have "holds p a (AssertBool (Var (nextVar s + i)))"
    using m by blast
  then show ?thesis using assms(1) by (rule assertBool_holds [rotated])
qed

lemma unpack_recompose:
  assumes "is_prime p" and "satisfies p a (emitted s (snd (unpack p x len s)))"
  shows "(\<Sum>j<len. toBigInt p a (Var (nextVar s + j)) * 2 ^ j) mod p = toBigInt p a x"
proof -
  have p1: "1 < p" using assms(1) by (rule is_prime_gt1)
  have "holds p a (AssertMul (lc_of p (map Var [nextVar s..<nextVar s + len])) (createField p 1) x)"
    using assms(2) unfolding satisfies_def unpack_emitted list_all_append by simp
  then have "toBigInt p a (lc_of p (map Var [nextVar s..<nextVar s + len])) mod p = toBigInt p a x"
    using p1 by (simp add: Fp_mul_def createField_def Fp_mod_def)
  then show ?thesis using p1 by (simp add: lc_of_vars_value)
qed

lemma unpack_sum_range:
  assumes "is_prime p" and "satisfies p a (emitted s (snd (unpack p x len s)))"
  shows "0 \<le> (\<Sum>j<len. toBigInt p a (Var (nextVar s + j)) * 2 ^ j)
       \<and> (\<Sum>j<len. toBigInt p a (Var (nextVar s + j)) * 2 ^ j) < 2 ^ len"
  by (rule bits_sum_bound) (rule unpack_bit_boolean [OF assms])

lemma unpack_forces_range:
  assumes "is_prime p" and "satisfies p a (emitted s (snd (unpack p x len s)))"
  shows "toBigInt p a x < 2 ^ len"
proof -
  have p1: "1 < p" using assms(1) by (rule is_prime_gt1)
  let ?S = "(\<Sum>j<len. toBigInt p a (Var (nextVar s + j)) * 2 ^ j)"
  have r: "0 \<le> ?S" "?S < 2 ^ len" using unpack_sum_range [OF assms] by simp_all
  have e: "?S mod p = toBigInt p a x" using assms by (rule unpack_recompose)
  show ?thesis
  proof (cases "?S < p")
    case True
    then have "?S mod p = ?S" using r by simp
    then show ?thesis using e r by simp
  next
    case False
    then have "p < 2 ^ len" using r by linarith
    moreover have "toBigInt p a x < p" using toBigInt_range [of p a x] p1 by simp
    ultimately show ?thesis by linarith
  qed
qed

lemma unpack_recompose_int:
  assumes "is_prime p" and "satisfies p a (emitted s (snd (unpack p x len s)))"
    and "2 ^ len \<le> p"
  shows "(\<Sum>j<len. toBigInt p a (Var (nextVar s + j)) * 2 ^ j) = toBigInt p a x"
proof -
  let ?S = "(\<Sum>j<len. toBigInt p a (Var (nextVar s + j)) * 2 ^ j)"
  have r: "0 \<le> ?S" "?S < 2 ^ len" using unpack_sum_range [OF assms(1,2)] by simp_all
  then have "?S mod p = ?S" using assms(3) by simp
  then show ?thesis using unpack_recompose [OF assms(1,2)] by simp
qed

lemma bit_digit: "drop_bit i (x::int) AND 1 = 0 \<or> drop_bit i x AND 1 = 1"
  by (simp add: and_one_eq) presburger

lemma bool_value_holds: "1 < p \<Longrightarrow> v = 0 \<or> v = 1 \<Longrightarrow> Fp_mul p v v = v"
  by (auto simp: Fp_mul_def)

lemma unpack_prover_bit:
  assumes "1 < p" and "mode s = Prover" and "i < len"
  shows "toBigInt p (witness (snd (unpack p x len s))) (Var (nextVar s + i)) =
           drop_bit i (toBigInt p (witness s) x) AND 1"
proof -
  have "drop_bit i (toBigInt p (witness s) x) AND 1 = 0
      \<or> drop_bit i (toBigInt p (witness s) x) AND 1 = 1"
    by (simp add: and_one_eq) presburger
  then show ?thesis
    using assms by (auto simp: unpack_witness Fp_mod_def)
qed

lemma unpack_prover_satisfies:
  assumes p: "is_prime p" and m: "mode s = Prover" and al: "allocated (nextVar s) x"
    and x: "toBigInt p (witness s) x < 2 ^ len"
  shows "satisfies p (witness (snd (unpack p x len s))) (emitted s (snd (unpack p x len s)))"
proof -
  have p1: "1 < p" using p by (rule is_prime_gt1)
  let ?w = "witness (snd (unpack p x len s))"
  let ?x = "toBigInt p (witness s) x"
  have wx: "toBigInt p ?w x = ?x"
    by (rule toBigInt_cong [OF al]) (simp add: unpack_frame)
  have rx: "0 \<le> ?x" "?x < p" using toBigInt_range [of p "witness s" x] p1 by simp_all
  have bit: "\<And>i. i < len \<Longrightarrow> toBigInt p ?w (Var (nextVar s + i)) = drop_bit i ?x AND 1"
    using p1 m by (rule unpack_prover_bit)
  have b: "list_all (holds p ?w) (map AssertBool (map Var [nextVar s..<nextVar s + len]))"
  proof -
    have "holds p ?w (AssertBool (Var v))" if v: "nextVar s \<le> v" "v < nextVar s + len" for v
    proof -
      define i where "i = v - nextVar s"
      have i: "v = nextVar s + i" "i < len" using v by (simp_all add: i_def)
      have "toBigInt p ?w (Var v) = 0 \<or> toBigInt p ?w (Var v) = 1"
        unfolding i(1) bit [OF i(2)] by (rule bit_digit)
      then show ?thesis
        unfolding holds.simps using p1 by (rule bool_value_holds [rotated])
    qed
    then show ?thesis by (simp add: list_all_iff del: toBigInt.simps holds.simps)
  qed
  have "(\<Sum>j<len. toBigInt p ?w (Var (nextVar s + j)) * 2 ^ j) =
        (\<Sum>j<len. (drop_bit j ?x AND 1) * 2 ^ j)"
    by (rule sum.cong) (simp_all only: bit lessThan_iff)
  also have "\<dots> = ?x mod 2 ^ len" by (rule bits_sum_digits)
  also have "\<dots> = ?x" using rx x by simp
  finally have "toBigInt p ?w (lc_of p (map Var [nextVar s..<nextVar s + len])) = ?x"
    using p1 rx by (simp add: lc_of_vars_value)
  then have "holds p ?w
      (AssertMul (lc_of p (map Var [nextVar s..<nextVar s + len])) (createField p 1) x)"
    using p1 rx by (simp add: wx Fp_mul_def createField_def Fp_mod_def)
  then show ?thesis using b by (simp add: satisfies_def unpack_emitted)
qed

text \<open>
  Claim C4. \<^verbatim>\<open>unpack(x, length)\<close> returns \<open>length\<close> wires and emits \<open>length + 1\<close>
  constraints, among them the boolean assertion of every returned bit. In every assignment
  that satisfies the emitted constraints every bit is \<open>0\<close> or \<open>1\<close> and the weighted sum of
  the bits equals \<open>x\<close> in the field, and as integers when \<open>2 ^ length \<le> p\<close>. No assignment in
  which \<open>x \<ge> 2 ^ length\<close> satisfies them. In prover mode, for \<open>x < 2 ^ length\<close>, the
  witness values that \<^verbatim>\<open>unpack\<close> computes are the binary digits of \<open>x\<close> and satisfy the
  emitted constraints.
\<close>

theorem unpack_sound_complete:
  assumes "is_prime p"
  shows "length (fst (unpack p x len s)) = len
       \<and> length (emitted s (snd (unpack p x len s))) = len + 1
       \<and> (\<forall>b \<in> set (fst (unpack p x len s)).
             AssertBool (toField b) \<in> set (emitted s (snd (unpack p x len s))))
       \<and> (\<forall>a. satisfies p a (emitted s (snd (unpack p x len s))) \<longrightarrow>
             (\<forall>b \<in> set (fst (unpack p x len s)).
                toBigInt p a (toField b) = 0 \<or> toBigInt p a (toField b) = 1)
           \<and> (\<Sum>i<len. toBigInt p a (toField (fst (unpack p x len s) ! i)) * 2 ^ i) mod p =
                toBigInt p a x
           \<and> (2 ^ len \<le> p \<longrightarrow>
                (\<Sum>i<len. toBigInt p a (toField (fst (unpack p x len s) ! i)) * 2 ^ i) =
                  toBigInt p a x))
       \<and> (\<forall>a. 2 ^ len \<le> toBigInt p a x \<longrightarrow>
             \<not> satisfies p a (emitted s (snd (unpack p x len s))))
       \<and> (mode s = Prover \<and> allocated (nextVar s) x \<and> toBigInt p (witness s) x < 2 ^ len \<longrightarrow>
             satisfies p (witness (snd (unpack p x len s))) (emitted s (snd (unpack p x len s)))
           \<and> (\<forall>i<len. toBigInt p (witness (snd (unpack p x len s)))
                         (toField (fst (unpack p x len s) ! i)) =
                       drop_bit i (toBigInt p (witness s) x) AND 1))"
proof -
  have p1: "1 < p" using assms by (rule is_prime_gt1)
  let ?bits = "fst (unpack p x len s)" and ?E = "emitted s (snd (unpack p x len s))"
  have nth: "\<And>i. i < len \<Longrightarrow> toField (?bits ! i) = Var (nextVar s + i)"
    by (simp add: unpack_nth)
  have mem: "\<exists>i<len. toField b = Var (nextVar s + i)" if bm: "b \<in> set ?bits" for b
  proof -
    obtain i where i: "i < length ?bits" "?bits ! i = b" using bm unfolding in_set_conv_nth by blast
    have "i < len" using i(1) by (simp only: unpack_length)
    moreover from this have "toField (?bits ! i) = Var (nextVar s + i)" by (rule nth)
    ultimately show ?thesis unfolding i(2) by blast
  qed
  have sumeq: "(\<Sum>i<len. toBigInt p a (toField (?bits ! i)) * 2 ^ i) =
               (\<Sum>i<len. toBigInt p a (Var (nextVar s + i)) * 2 ^ i)" for a
    by (rule sum.cong) (simp_all add: nth)
  have c1: "length ?bits = len" by (rule unpack_length)
  have c2: "length ?E = len + 1" by (simp add: unpack_emitted)
  have c3: "\<forall>b \<in> set ?bits. AssertBool (toField b) \<in> set ?E"
  proof
    fix b assume "b \<in> set ?bits"
    then obtain i where "i < len" "toField b = Var (nextVar s + i)" using mem by blast
    then show "AssertBool (toField b) \<in> set ?E" by (simp add: unpack_emitted)
  qed
  have c4: "\<forall>a. satisfies p a ?E \<longrightarrow>
             (\<forall>b \<in> set ?bits. toBigInt p a (toField b) = 0 \<or> toBigInt p a (toField b) = 1)
           \<and> (\<Sum>i<len. toBigInt p a (toField (?bits ! i)) * 2 ^ i) mod p = toBigInt p a x
           \<and> (2 ^ len \<le> p \<longrightarrow>
                (\<Sum>i<len. toBigInt p a (toField (?bits ! i)) * 2 ^ i) = toBigInt p a x)"
  proof (intro allI impI conjI ballI)
    fix a b assume sat: "satisfies p a ?E" and "b \<in> set ?bits"
    then obtain i where "i < len" "toField b = Var (nextVar s + i)" using mem by blast
    then show "toBigInt p a (toField b) = 0 \<or> toBigInt p a (toField b) = 1"
      using unpack_bit_boolean [OF assms sat] by simp
  next
    fix a assume sat: "satisfies p a ?E"
    show "(\<Sum>i<len. toBigInt p a (toField (?bits ! i)) * 2 ^ i) mod p = toBigInt p a x"
      unfolding sumeq using assms sat by (rule unpack_recompose)
  next
    fix a assume sat: "satisfies p a ?E" and "2 ^ len \<le> p"
    then show "(\<Sum>i<len. toBigInt p a (toField (?bits ! i)) * 2 ^ i) = toBigInt p a x"
      unfolding sumeq using assms by (intro unpack_recompose_int)
  qed
  have c5: "\<forall>a. 2 ^ len \<le> toBigInt p a x \<longrightarrow> \<not> satisfies p a ?E"
  proof (intro allI impI notI)
    fix a assume "2 ^ len \<le> toBigInt p a x" and "satisfies p a ?E"
    then show False using unpack_forces_range [OF assms, of a s x len] by simp
  qed
  have c6: "mode s = Prover \<and> allocated (nextVar s) x \<and> toBigInt p (witness s) x < 2 ^ len \<longrightarrow>
             satisfies p (witness (snd (unpack p x len s))) ?E
           \<and> (\<forall>i<len. toBigInt p (witness (snd (unpack p x len s))) (toField (?bits ! i)) =
                       drop_bit i (toBigInt p (witness s) x) AND 1)"
  proof (intro impI conjI allI)
    assume h: "mode s = Prover \<and> allocated (nextVar s) x \<and> toBigInt p (witness s) x < 2 ^ len"
    then show "satisfies p (witness (snd (unpack p x len s))) ?E"
      by (intro unpack_prover_satisfies [OF assms]) simp_all
    fix i assume "i < len"
    then show "toBigInt p (witness (snd (unpack p x len s))) (toField (?bits ! i)) =
                 drop_bit i (toBigInt p (witness s) x) AND 1"
      using h unpack_prover_bit [OF p1, of s i len x] by (simp add: nth)
  qed
  show ?thesis
    by (rule conjI [OF c1 conjI [OF c2 conjI [OF c3 conjI [OF c4 conjI [OF c5 c6]]]]])
qed

theorem unpack_sound_complete_witness:
  "is_prime 7
   \<and> mode example_prover = Prover \<and> allocated (nextVar example_prover) (Var 0)
   \<and> toBigInt 7 (witness example_prover) (Var 0) < 2 ^ 2 \<and> 2 ^ 2 \<le> (7::int)
   \<and> length (fst (unpack 7 (Var 0) 2 example_prover)) = 2
   \<and> satisfies 7 (witness (snd (unpack 7 (Var 0) 2 example_prover)))
        (emitted example_prover (snd (unpack 7 (Var 0) 2 example_prover)))
   \<and> (\<Sum>i<2. toBigInt 7 (witness (snd (unpack 7 (Var 0) 2 example_prover)))
                 (toField (fst (unpack 7 (Var 0) 2 example_prover) ! i)) * 2 ^ i) = 3
   \<and> 2 ^ 2 \<le> toBigInt 7 (\<lambda>i. 5) (Var 0)
   \<and> \<not> satisfies 7 (\<lambda>i. 5) (emitted example_prover (snd (unpack 7 (Var 0) 2 example_prover)))"
proof -
  let ?w = "witness (snd (unpack 7 (Var 0) 2 example_prover))"
  let ?E = "emitted example_prover (snd (unpack 7 (Var 0) 2 example_prover))"
  have m: "mode example_prover = Prover \<and> allocated (nextVar example_prover) (Var 0)
           \<and> toBigInt 7 (witness example_prover) (Var 0) < 2 ^ 2"
    by (simp add: example_prover_def Fp_mod_def)
  have le: "2 ^ 2 \<le> (7::int)" by simp
  have big: "2 ^ 2 \<le> toBigInt 7 (\<lambda>i. 5) (Var 0)" by (simp add: Fp_mod_def)
  note t = unpack_sound_complete [OF is_prime_7, of "Var 0" 2 example_prover]
  from t m have 1: "length (fst (unpack 7 (Var 0) 2 example_prover)) = 2 \<and> satisfies 7 ?w ?E"
    by blast
  from t 1 le have "(\<Sum>i<2. toBigInt 7 ?w (toField (fst (unpack 7 (Var 0) 2 example_prover) ! i)) * 2 ^ i)
      = toBigInt 7 ?w (Var 0)"
    by blast
  moreover have "toBigInt 7 ?w (Var 0) = 3"
    by (simp add: unpack_frame example_prover_def Fp_mod_def)
  ultimately have 2: "(\<Sum>i<2. toBigInt 7 ?w (toField (fst (unpack 7 (Var 0) 2 example_prover) ! i)) * 2 ^ i) = 3"
    by (rule trans)
  from t big have 3: "\<not> satisfies 7 (\<lambda>i. 5) ?E" by blast
  show ?thesis using is_prime_7 m le 1 2 big 3 by blast
qed

subsection \<open>\<^verbatim>\<open>any\<close>\<close>

lemma any_isZero: "any p xs s = (Bool_not p (fst (isZero p (sum_of p xs) s)), snd (isZero p (sum_of p xs) s))"
  by (simp add: any_def sum_of_def Let_def split: prod.splits)

lemma foldl_sum_value:
  assumes "0 < p"
  shows "toBigInt p a (foldl (\<lambda>a b. Add a (toField b)) acc xs) =
           (toBigInt p a acc + (\<Sum>b\<leftarrow>xs. toBigInt p a (toField b))) mod p"
proof (induction xs arbitrary: acc)
  case Nil
  then show ?case using assms by (simp add: toBigInt_mod)
next
  case (Cons b xs)
  show ?case
    unfolding foldl_Cons Cons.IH
    by (simp add: Fp_add_def mod_simps add.assoc)
qed

lemma sum_of_value:
  assumes "0 < p"
  shows "toBigInt p a (sum_of p xs) = (\<Sum>b\<leftarrow>xs. toBigInt p a (toField b)) mod p"
  using foldl_sum_value [OF assms, of a "createField p 0" xs]
  by (simp add: sum_of_def createField_def Fp_mod_def)

lemma foldl_sum_allocated:
  "allocated n acc \<Longrightarrow> (\<And>b. b \<in> set xs \<Longrightarrow> allocated n (toField b)) \<Longrightarrow>
     allocated n (foldl (\<lambda>a b. Add a (toField b)) acc xs)"
  by (induction xs arbitrary: acc) simp_all

lemma sum_of_allocated:
  "(\<And>b. b \<in> set xs \<Longrightarrow> allocated n (toField b)) \<Longrightarrow> allocated n (sum_of p xs)"
  unfolding sum_of_def by (rule foldl_sum_allocated) (simp_all add: createField_def)

lemma sum_list_bits:
  fixes f :: "'a \<Rightarrow> int"
  assumes "\<And>b. b \<in> set xs \<Longrightarrow> f b = 0 \<or> f b = 1"
  shows "0 \<le> (\<Sum>b\<leftarrow>xs. f b) \<and> (\<Sum>b\<leftarrow>xs. f b) \<le> int (length xs)
       \<and> ((\<Sum>b\<leftarrow>xs. f b) = 0 \<longleftrightarrow> (\<forall>b \<in> set xs. f b \<noteq> 1))"
  using assms
proof (induction xs)
  case Nil
  then show ?case by simp
next
  case (Cons x xs)
  have ih: "0 \<le> (\<Sum>b\<leftarrow>xs. f b) \<and> (\<Sum>b\<leftarrow>xs. f b) \<le> int (length xs)
       \<and> ((\<Sum>b\<leftarrow>xs. f b) = 0 \<longleftrightarrow> (\<forall>b \<in> set xs. f b \<noteq> 1))"
    using Cons by simp
  have "f x = 0 \<or> f x = 1" using Cons.prems by simp
  then show ?case using ih by auto
qed

lemma sum_of_zero_iff:
  assumes "1 < p" and "int (length xs) < p"
    and "\<And>b. b \<in> set xs \<Longrightarrow> toBigInt p a (toField b) = 0 \<or> toBigInt p a (toField b) = 1"
  shows "toBigInt p a (sum_of p xs) = 0 \<longleftrightarrow> (\<forall>b \<in> set xs. toBigInt p a (toField b) \<noteq> 1)"
proof -
  let ?S = "(\<Sum>b\<leftarrow>xs. toBigInt p a (toField b))"
  have b: "0 \<le> ?S \<and> ?S \<le> int (length xs)
       \<and> (?S = 0 \<longleftrightarrow> (\<forall>b \<in> set xs. toBigInt p a (toField b) \<noteq> 1))"
    by (rule sum_list_bits) (rule assms(3))
  then have "?S mod p = ?S" using assms(2) by simp
  then show ?thesis using b assms(1) by (simp add: sum_of_value)
qed

lemma Bool_not_value:
  assumes "1 < p" and "toBigInt p a (toField b) = 0 \<or> toBigInt p a (toField b) = 1"
  shows "toBigInt p a (toField (Bool_not p b)) = 1 - toBigInt p a (toField b)"
  using assms by (auto simp: Bool_not_def createField_def Fp_mod_def Fp_sub_def)

lemma isZero_emitted_sound:
  assumes "is_prime p" and "satisfies p a (emitted s (snd (isZero p x s)))"
  shows "toBigInt p a (toField (fst (isZero p x s))) = (if toBigInt p a x = 0 then 1 else 0)"
proof -
  have "holds p a (AssertMul (Var (nextVar s)) x (createField p 0))"
    and "holds p a (AssertMul (Var (Suc (nextVar s))) x (Sub (createField p 1) (Var (nextVar s))))"
    using assms(2) by (simp_all add: satisfies_def isZero_emitted)
  then show ?thesis
    unfolding isZero_fst Bool.sel by (rule isZero_sound [OF assms(1)])
qed

lemma any_emitted: "emitted s (snd (any p xs s)) = emitted s (snd (isZero p (sum_of p xs) s))"
  by (simp add: any_isZero)

lemma any_sound:
  assumes p: "is_prime p" and len: "int (length xs) < p"
    and sat: "satisfies p a (emitted s (snd (any p xs s)))"
    and bits: "\<And>b. b \<in> set xs \<Longrightarrow> toBigInt p a (toField b) = 0 \<or> toBigInt p a (toField b) = 1"
  shows "toBigInt p a (toField (fst (any p xs s))) =
           (if \<exists>b \<in> set xs. toBigInt p a (toField b) = 1 then 1 else 0)"
proof -
  have p1: "1 < p" using p by (rule is_prime_gt1)
  let ?b = "fst (isZero p (sum_of p xs) s)"
  have "satisfies p a (emitted s (snd (isZero p (sum_of p xs) s)))"
    using sat by (simp only: any_emitted)
  then have v: "toBigInt p a (toField ?b) = (if toBigInt p a (sum_of p xs) = 0 then 1 else 0)"
    by (rule isZero_emitted_sound [OF p])
  then have "toBigInt p a (toField ?b) = 0 \<or> toBigInt p a (toField ?b) = 1"
    by (simp split: if_splits)
  then have "toBigInt p a (toField (Bool_not p ?b)) = 1 - toBigInt p a (toField ?b)"
    by (rule Bool_not_value [OF p1])
  moreover have "toBigInt p a (sum_of p xs) = 0 \<longleftrightarrow> (\<forall>b \<in> set xs. toBigInt p a (toField b) \<noteq> 1)"
    using p1 len bits by (rule sum_of_zero_iff)
  ultimately show ?thesis using v by (simp add: any_isZero)
qed

lemma any_prover:
  assumes p: "is_prime p" and len: "int (length xs) < p" and m: "mode s = Prover"
    and al: "\<And>b. b \<in> set xs \<Longrightarrow> allocated (nextVar s) (toField b)"
    and bits: "\<And>b. b \<in> set xs \<Longrightarrow>
                 toBigInt p (witness s) (toField b) = 0 \<or> toBigInt p (witness s) (toField b) = 1"
  shows "satisfies p (witness (snd (any p xs s))) (emitted s (snd (any p xs s)))"
    and "toBigInt p (witness (snd (any p xs s))) (toField (fst (any p xs s))) =
           (if \<exists>b \<in> set xs. toBigInt p (witness s) (toField b) = 1 then 1 else 0)"
proof -
  have p1: "1 < p" using p by (rule is_prime_gt1)
  let ?x = "sum_of p xs"
  let ?b = "fst (isZero p ?x s)" and ?s = "snd (isZero p ?x s)"
  have ax: "allocated (nextVar s) ?x" by (rule sum_of_allocated) (rule al)
  show "satisfies p (witness (snd (any p xs s))) (emitted s (snd (any p xs s)))"
    using isZero_prover(2) [OF p m ax] by (simp add: any_isZero)
  have v: "toBigInt p (witness ?s) (toField ?b) =
             (if toBigInt p (witness s) ?x = 0 then 1 else 0)"
    by (rule isZero_prover(1) [OF p m ax])
  then have "toBigInt p (witness ?s) (toField ?b) = 0 \<or> toBigInt p (witness ?s) (toField ?b) = 1"
    by (simp split: if_splits)
  then have "toBigInt p (witness ?s) (toField (Bool_not p ?b)) =
               1 - toBigInt p (witness ?s) (toField ?b)"
    by (rule Bool_not_value [OF p1])
  moreover have "toBigInt p (witness s) ?x = 0 \<longleftrightarrow>
                   (\<forall>b \<in> set xs. toBigInt p (witness s) (toField b) \<noteq> 1)"
    using p1 len bits by (rule sum_of_zero_iff)
  ultimately show "toBigInt p (witness (snd (any p xs s))) (toField (fst (any p xs s))) =
           (if \<exists>b \<in> set xs. toBigInt p (witness s) (toField b) = 1 then 1 else 0)"
    using v by (simp add: any_isZero)
qed

text \<open>
  Claim C6. For boolean wires \<open>bits\<close>, each valued \<open>0\<close> or \<open>1\<close>, the wire that
  \<^verbatim>\<open>any(bits)\<close> returns is \<open>0\<close> or \<open>1\<close>, and it is \<open>1\<close> if and only if at least one element
  of \<open>bits\<close> is \<open>1\<close>: in every assignment that satisfies the emitted constraints, and for
  the witness values computed in prover mode, which satisfy them. The sum of the bits is
  taken in the field, so the sequence has to be shorter than the modulus; every array
  that the source can be given is far shorter than the 255-bit modulus of \<^verbatim>\<open>Fp\<close>.
\<close>

theorem any_iff_some_bit_set:
  assumes "is_prime p" and "int (length xs) < p"
  shows "(\<forall>a. satisfies p a (emitted s (snd (any p xs s)))
            \<and> (\<forall>b \<in> set xs. toBigInt p a (toField b) = 0 \<or> toBigInt p a (toField b) = 1) \<longrightarrow>
              (toBigInt p a (toField (fst (any p xs s))) = 1) =
                (\<exists>b \<in> set xs. toBigInt p a (toField b) = 1)
            \<and> (toBigInt p a (toField (fst (any p xs s))) = 0
               \<or> toBigInt p a (toField (fst (any p xs s))) = 1))
       \<and> (mode s = Prover
            \<and> (\<forall>b \<in> set xs. allocated (nextVar s) (toField b))
            \<and> (\<forall>b \<in> set xs. toBigInt p (witness s) (toField b) = 0
                              \<or> toBigInt p (witness s) (toField b) = 1) \<longrightarrow>
              satisfies p (witness (snd (any p xs s))) (emitted s (snd (any p xs s)))
            \<and> (toBigInt p (witness (snd (any p xs s))) (toField (fst (any p xs s))) = 1) =
                (\<exists>b \<in> set xs. toBigInt p (witness s) (toField b) = 1)
            \<and> (toBigInt p (witness (snd (any p xs s))) (toField (fst (any p xs s))) = 0
               \<or> toBigInt p (witness (snd (any p xs s))) (toField (fst (any p xs s))) = 1))"
proof (intro conjI allI impI)
  fix a
  assume h: "satisfies p a (emitted s (snd (any p xs s)))
            \<and> (\<forall>b \<in> set xs. toBigInt p a (toField b) = 0 \<or> toBigInt p a (toField b) = 1)"
  then have v: "toBigInt p a (toField (fst (any p xs s))) =
           (if \<exists>b \<in> set xs. toBigInt p a (toField b) = 1 then 1 else 0)"
    by (intro any_sound [OF assms]) blast+
  show "(toBigInt p a (toField (fst (any p xs s))) = 1) =
                (\<exists>b \<in> set xs. toBigInt p a (toField b) = 1)"
    unfolding v by simp
  show "toBigInt p a (toField (fst (any p xs s))) = 0
               \<or> toBigInt p a (toField (fst (any p xs s))) = 1"
    unfolding v by simp
next
  assume h: "mode s = Prover
            \<and> (\<forall>b \<in> set xs. allocated (nextVar s) (toField b))
            \<and> (\<forall>b \<in> set xs. toBigInt p (witness s) (toField b) = 0
                              \<or> toBigInt p (witness s) (toField b) = 1)"
  then show "satisfies p (witness (snd (any p xs s))) (emitted s (snd (any p xs s)))"
    by (intro any_prover(1) [OF assms]) blast+
  from h have v: "toBigInt p (witness (snd (any p xs s))) (toField (fst (any p xs s))) =
           (if \<exists>b \<in> set xs. toBigInt p (witness s) (toField b) = 1 then 1 else 0)"
    by (intro any_prover(2) [OF assms]) blast+
  show "(toBigInt p (witness (snd (any p xs s))) (toField (fst (any p xs s))) = 1) =
                (\<exists>b \<in> set xs. toBigInt p (witness s) (toField b) = 1)"
    unfolding v by simp
  show "toBigInt p (witness (snd (any p xs s))) (toField (fst (any p xs s))) = 0
               \<or> toBigInt p (witness (snd (any p xs s))) (toField (fst (any p xs s))) = 1"
    unfolding v by simp
qed

theorem any_iff_some_bit_set_witness:
  "is_prime 7 \<and> int (length [createBool (Constant 0), createBool (Constant 1)]) < 7
   \<and> mode example_prover = Prover
   \<and> toBigInt 7 (witness (snd (any 7 [] example_prover)))
        (toField (fst (any 7 [] example_prover))) = 0
   \<and> toBigInt 7 (witness (snd (any 7 [createBool (Constant 0), createBool (Constant 0)]
                                      example_prover)))
        (toField (fst (any 7 [createBool (Constant 0), createBool (Constant 0)]
                         example_prover))) = 0
   \<and> satisfies 7
        (witness (snd (any 7 [createBool (Constant 0), createBool (Constant 1)] example_prover)))
        (emitted example_prover
           (snd (any 7 [createBool (Constant 0), createBool (Constant 1)] example_prover)))
   \<and> toBigInt 7 (witness (snd (any 7 [createBool (Constant 0), createBool (Constant 1)]
                                      example_prover)))
        (toField (fst (any 7 [createBool (Constant 0), createBool (Constant 1)]
                         example_prover))) = 1"
proof -
  have m: "mode example_prover = Prover" by (simp add: example_prover_def)
  have a: "toBigInt 7 (witness (snd (any 7 [] example_prover)))
        (toField (fst (any 7 [] example_prover))) = 0"
    using any_iff_some_bit_set [OF is_prime_7, of "[]" example_prover] m by auto
  have b: "toBigInt 7 (witness (snd (any 7 [createBool (Constant 0), createBool (Constant 0)]
                                      example_prover)))
        (toField (fst (any 7 [createBool (Constant 0), createBool (Constant 0)]
                         example_prover))) = 0"
    using any_iff_some_bit_set [OF is_prime_7,
        of "[createBool (Constant 0), createBool (Constant 0)]" example_prover] m
    by (auto simp: Fp_mod_def)
  have c: "satisfies 7
        (witness (snd (any 7 [createBool (Constant 0), createBool (Constant 1)] example_prover)))
        (emitted example_prover
           (snd (any 7 [createBool (Constant 0), createBool (Constant 1)] example_prover)))
     \<and> toBigInt 7 (witness (snd (any 7 [createBool (Constant 0), createBool (Constant 1)]
                                      example_prover)))
        (toField (fst (any 7 [createBool (Constant 0), createBool (Constant 1)]
                         example_prover))) = 1"
    using any_iff_some_bit_set [OF is_prime_7,
        of "[createBool (Constant 0), createBool (Constant 1)]" example_prover] m
    by (auto simp: Fp_mod_def)
  show ?thesis using a b c m is_prime_7 by simp
qed

subsection \<open>The generic comparison gadgets\<close>

lemma seal_fst: "fst (seal p x s) = Var (nextVar s)"
  by (simp add: seal_def exists_def Let_def split: prod.splits)

lemma seal_gates: "gates (snd (seal p x s)) = gates s @ [AssertEqual x (Var (nextVar s))]"
  by (simp add: seal_def exists_def Let_def split: prod.splits)

lemma seal_nextVar: "nextVar (snd (seal p x s)) = Suc (nextVar s)"
  by (simp add: seal_def exists_def Let_def split: prod.splits)

lemma emitted_appendI: "gates s' = gates s @ E \<Longrightarrow> emitted s s' = E"
  by (simp add: emitted_def)

lemma asserts_rangeD:
  assumes "asserts_range p c rangeCheck" and "allocated (nextVar s) v"
  shows "gates (rangeCheck v s) = gates s @ emitted s (rangeCheck v s)
       \<and> satisfiable_from p (nextVar s) a0 (emitted s (rangeCheck v s)) = (toBigInt p a0 v < c)"
proof -
  have 1: "\<forall>v s a0. allocated (nextVar s) v \<longrightarrow>
        gates (rangeCheck v s) = gates s @ emitted s (rangeCheck v s)
      \<and> satisfiable_from p (nextVar s) a0 (emitted s (rangeCheck v s)) = (toBigInt p a0 v < c)"
    using assms(1) by (simp only: asserts_range_def)
  have 2: "allocated (nextVar s) v \<longrightarrow>
        gates (rangeCheck v s) = gates s @ emitted s (rangeCheck v s)
      \<and> satisfiable_from p (nextVar s) a0 (emitted s (rangeCheck v s)) = (toBigInt p a0 v < c)"
    by (rule spec [OF spec [OF spec [OF 1]]])
  show ?thesis by (rule mp [OF 2 assms(2)])
qed

lemma rangeCheck_after_seal:
  assumes rc: "asserts_range p c rangeCheck" and al: "allocated (nextVar s) e"
  shows "(satisfiable_from p (nextVar s) a0
            (emitted s (rangeCheck (fst (seal p e s)) (snd (seal p e s))))) =
         (toBigInt p a0 e < c)"
proof -
  let ?n = "nextVar s"
  let ?s1 = "snd (seal p e s)"
  let ?E = "emitted ?s1 (rangeCheck (Var ?n) ?s1)"
  have alv: "allocated (nextVar ?s1) (Var ?n)" by (simp add: seal_nextVar)
  have g: "gates (rangeCheck (Var ?n) ?s1) = gates ?s1 @ ?E"
    by (rule asserts_rangeD [OF rc alv, THEN conjunct1])
  have sp: "\<And>a. satisfiable_from p (nextVar ?s1) a ?E = (toBigInt p a (Var ?n) < c)"
    by (rule asserts_rangeD [OF rc alv, THEN conjunct2])
  have em: "emitted s (rangeCheck (fst (seal p e s)) ?s1) = AssertEqual e (Var ?n) # ?E"
    unfolding seal_fst by (rule emitted_appendI) (simp add: g seal_gates)
  show ?thesis
  proof
    assume "satisfiable_from p ?n a0 (emitted s (rangeCheck (fst (seal p e s)) ?s1))"
    then obtain a where a: "\<forall>i<?n. a i = a0 i" "satisfies p a (AssertEqual e (Var ?n) # ?E)"
      unfolding em satisfiable_from_def by blast
    have eq: "toBigInt p a e = toBigInt p a (Var ?n)" and sE: "satisfies p a ?E"
      using a(2) by (simp_all add: satisfies_def)
    have "satisfiable_from p (nextVar ?s1) a ?E"
      unfolding satisfiable_from_def using sE by blast
    then have "toBigInt p a (Var ?n) < c" by (simp only: sp)
    moreover have "toBigInt p a e = toBigInt p a0 e"
      by (rule toBigInt_cong [OF al]) (simp add: a(1))
    ultimately show "toBigInt p a0 e < c" using eq by simp
  next
    assume lt: "toBigInt p a0 e < c"
    let ?a1 = "a0(?n := toBigInt p a0 e)"
    have m: "toBigInt p a0 e mod p = toBigInt p a0 e"
    proof (cases "0 < p")
      case True
      then show ?thesis by (rule toBigInt_mod)
    next
      case False
      show ?thesis
        by (cases e) (simp_all add: Fp_mod_def Fp_add_def Fp_sub_def Fp_mul_def)
    qed
    have v1: "toBigInt p ?a1 (Var ?n) = toBigInt p a0 e"
      using m by (simp add: Fp_mod_def)
    then have "satisfiable_from p (nextVar ?s1) ?a1 ?E" using lt by (simp only: sp)
    then obtain a where a: "\<forall>i<Suc ?n. a i = ?a1 i" "satisfies p a ?E"
      unfolding satisfiable_from_def seal_nextVar by blast
    have a0: "\<forall>i<?n. a i = a0 i" using a(1) by (simp add: less_Suc_eq)
    have "toBigInt p a e = toBigInt p a0 e"
      by (rule toBigInt_cong [OF al]) (simp add: a0)
    moreover have "toBigInt p a (Var ?n) = toBigInt p a0 e"
      using a(1) m by (simp add: Fp_mod_def)
    ultimately have "satisfies p a (AssertEqual e (Var ?n) # ?E)"
      using a(2) by (simp add: satisfies_def)
    then show "satisfiable_from p ?n a0 (emitted s (rangeCheck (fst (seal p e s)) ?s1))"
      unfolding em satisfiable_from_def using a0 by blast
  qed
qed

lemma mod_wrap_negative:
  fixes a p :: int
  assumes "a < 0" and "- p \<le> a"
  shows "a mod p = a + p"
proof -
  have "(a + p) mod p = a mod p" by simp
  moreover have "(a + p) mod p = a + p" using assms by (intro mod_pos_pos_trivial) linarith+
  ultimately show ?thesis by simp
qed

lemma diff_in_range_iff:
  fixes x y c p :: int
  assumes "0 \<le> x" "x < c" "0 \<le> y" "y < c" "2 * c \<le> p"
  shows "((y - x) mod p < c) = (x \<le> y)"
proof (cases "x \<le> y")
  case True
  then have "(y - x) mod p = y - x" using assms by simp
  then show ?thesis using True assms by simp
next
  case False
  then have "(y - x) mod p = y - x + p"
    using assms by (intro mod_wrap_negative) simp_all
  then show ?thesis using False assms by simp
qed

lemma pred_diff_in_range_iff:
  fixes x y c p :: int
  assumes "0 \<le> x" "x < c" "0 \<le> y" "y < c" "2 * c \<le> p"
  shows "((y - 1 - x) mod p < c) = (x < y)"
proof (cases "x < y")
  case True
  then have "(y - 1 - x) mod p = y - 1 - x" using assms by simp
  then show ?thesis using True assms by simp
next
  case False
  then have "(y - 1 - x) mod p = y - 1 - x + p"
    using assms by (intro mod_wrap_negative) simp_all
  then show ?thesis using False assms by simp
qed

lemma assertBool_asserts_range:
  assumes "is_prime p"
  shows "asserts_range p 2 assertBool"
  unfolding asserts_range_def
proof (intro allI impI conjI)
  fix v and s :: circuit and a0 :: "nat \<Rightarrow> int"
  assume al: "allocated (nextVar s) v"
  have p1: "1 < p" using assms by (rule is_prime_gt1)
  have em: "emitted s (assertBool v s) = [AssertBool v]"
    by (rule emitted_appendI) (simp add: assertBool_def)
  show "gates (assertBool v s) = gates s @ emitted s (assertBool v s)"
    unfolding em by (simp add: assertBool_def)
  show "satisfiable_from p (nextVar s) a0 (emitted s (assertBool v s)) = (toBigInt p a0 v < 2)"
    unfolding em
  proof
    assume "satisfiable_from p (nextVar s) a0 [AssertBool v]"
    then obtain a where a: "\<forall>i<nextVar s. a i = a0 i" "holds p a (AssertBool v)"
      unfolding satisfiable_from_def satisfies_def by auto
    have "toBigInt p a v = 0 \<or> toBigInt p a v = 1"
      using assms a(2) by (rule assertBool_holds)
    moreover have "toBigInt p a v = toBigInt p a0 v"
      by (rule toBigInt_cong [OF al]) (simp add: a(1))
    ultimately show "toBigInt p a0 v < 2" by auto
  next
    assume "toBigInt p a0 v < 2"
    moreover have "0 \<le> toBigInt p a0 v" using toBigInt_range [of p a0 v] p1 by simp
    ultimately have "toBigInt p a0 v = 0 \<or> toBigInt p a0 v = 1" by linarith
    then have "holds p a0 (AssertBool v)"
      unfolding holds.simps using p1 by (rule bool_value_holds [rotated])
    then show "satisfiable_from p (nextVar s) a0 [AssertBool v]"
      unfolding satisfiable_from_def satisfies_def by auto
  qed
qed

text \<open>
  Claim C1. Let \<^verbatim>\<open>rangeCheck\<close> assert membership in \<open>[0, c)\<close> with \<open>2c \<le> p\<close>, and let the
  values of \<open>x\<close> and \<open>y\<close> be in \<open>[0, c)\<close>. The constraints that
  \<^verbatim>\<open>assertLessThanOrEqualGeneric(x, y, rangeCheck)\<close> emits, the sealing of \<open>y - x\<close> and the
  range check of the sealed value, are satisfiable if and only if \<open>x \<le> y\<close>.
\<close>

theorem assertLessThanOrEqualGeneric_satisfiable_iff:
  assumes "asserts_range p c rangeCheck" and "2 * c \<le> p"
    and "allocated (nextVar s) x" and "allocated (nextVar s) y"
    and "0 \<le> toBigInt p a0 x" and "toBigInt p a0 x < c"
    and "0 \<le> toBigInt p a0 y" and "toBigInt p a0 y < c"
  shows "satisfiable_from p (nextVar s) a0
           (emitted s (assertLessThanOrEqualGeneric p x y rangeCheck s)) =
         (toBigInt p a0 x \<le> toBigInt p a0 y)"
proof -
  have al: "allocated (nextVar s) (Sub y x)" using assms(3,4) by simp
  have "satisfiable_from p (nextVar s) a0
           (emitted s (assertLessThanOrEqualGeneric p x y rangeCheck s)) =
        (toBigInt p a0 (Sub y x) < c)"
    using rangeCheck_after_seal [OF assms(1) al, of a0]
    by (simp add: assertLessThanOrEqualGeneric_def case_prod_beta)
  also have "\<dots> = ((toBigInt p a0 y - toBigInt p a0 x) mod p < c)"
    by (simp add: Fp_sub_def)
  also have "\<dots> = (toBigInt p a0 x \<le> toBigInt p a0 y)"
    using assms(5,6,7,8,2) by (rule diff_in_range_iff)
  finally show ?thesis .
qed

theorem assertLessThanOrEqualGeneric_satisfiable_iff_witness:
  "asserts_range 7 2 assertBool \<and> 2 * 2 \<le> (7::int)
   \<and> allocated (nextVar example_shape) (Var 0) \<and> allocated (nextVar example_shape) (Var 1)
   \<and> toBigInt 7 (\<lambda>i. if i = 1 then 1 else 0) (Var 0) = 0
   \<and> toBigInt 7 (\<lambda>i. if i = 1 then 1 else 0) (Var 1) = 1
   \<and> satisfiable_from 7 (nextVar example_shape) (\<lambda>i. if i = 1 then 1 else 0)
        (emitted example_shape
           (assertLessThanOrEqualGeneric 7 (Var 0) (Var 1) assertBool example_shape))
   \<and> \<not> satisfiable_from 7 (nextVar example_shape) (\<lambda>i. if i = 1 then 1 else 0)
        (emitted example_shape
           (assertLessThanOrEqualGeneric 7 (Var 1) (Var 0) assertBool example_shape))"
proof -
  have rc: "asserts_range 7 2 assertBool"
    by (rule assertBool_asserts_range [OF is_prime_7])
  have c: "2 * 2 \<le> (7::int)" by simp
  have al: "allocated (nextVar example_shape) (Var 0)" "allocated (nextVar example_shape) (Var 1)"
    by (simp_all add: example_shape_def)
  have v: "toBigInt 7 (\<lambda>i. if i = 1 then 1 else 0) (Var 0) = 0"
    "toBigInt 7 (\<lambda>i. if i = 1 then 1 else 0) (Var 1) = 1"
    by (simp_all add: Fp_mod_def)
  have 1: "satisfiable_from 7 (nextVar example_shape) (\<lambda>i. if i = 1 then 1 else 0)
        (emitted example_shape
           (assertLessThanOrEqualGeneric 7 (Var 0) (Var 1) assertBool example_shape))"
    using assertLessThanOrEqualGeneric_satisfiable_iff [OF rc c al(1) al(2),
        of "\<lambda>i. if i = 1 then 1 else 0"]
    by (simp add: Fp_mod_def)
  have 2: "\<not> satisfiable_from 7 (nextVar example_shape) (\<lambda>i. if i = 1 then 1 else 0)
        (emitted example_shape
           (assertLessThanOrEqualGeneric 7 (Var 1) (Var 0) assertBool example_shape))"
    using assertLessThanOrEqualGeneric_satisfiable_iff [OF rc c al(2) al(1),
        of "\<lambda>i. if i = 1 then 1 else 0"]
    by (simp add: Fp_mod_def)
  show ?thesis using rc c al v 1 2 by blast
qed

text \<open>
  Claim C2. Under the same assumptions the constraints that
  \<^verbatim>\<open>assertLessThanGeneric(x, y, rangeCheck)\<close> emits, the sealing of \<open>y - 1 - x\<close> and the range
  check of the sealed value, are satisfiable if and only if \<open>x < y\<close>.
\<close>

theorem assertLessThanGeneric_satisfiable_iff:
  assumes "asserts_range p c rangeCheck" and "2 * c \<le> p"
    and "allocated (nextVar s) x" and "allocated (nextVar s) y"
    and "0 \<le> toBigInt p a0 x" and "toBigInt p a0 x < c"
    and "0 \<le> toBigInt p a0 y" and "toBigInt p a0 y < c"
  shows "satisfiable_from p (nextVar s) a0
           (emitted s (assertLessThanGeneric p x y rangeCheck s)) =
         (toBigInt p a0 x < toBigInt p a0 y)"
proof -
  have p1: "1 < p" using assms(2,5,6) by linarith
  have al: "allocated (nextVar s) (Sub (Sub y (createField p 1)) x)"
    using assms(3,4) by (simp add: createField_def)
  have "satisfiable_from p (nextVar s) a0
           (emitted s (assertLessThanGeneric p x y rangeCheck s)) =
        (toBigInt p a0 (Sub (Sub y (createField p 1)) x) < c)"
    using rangeCheck_after_seal [OF assms(1) al, of a0]
    by (simp add: assertLessThanGeneric_def case_prod_beta)
  also have "\<dots> = ((toBigInt p a0 y - 1 - toBigInt p a0 x) mod p < c)"
    using p1 by (simp add: Fp_sub_def createField_def Fp_mod_def mod_simps)
  also have "\<dots> = (toBigInt p a0 x < toBigInt p a0 y)"
    using assms(5,6,7,8,2) by (rule pred_diff_in_range_iff)
  finally show ?thesis .
qed

theorem assertLessThanGeneric_satisfiable_iff_witness:
  "asserts_range 7 2 assertBool \<and> 2 * 2 \<le> (7::int)
   \<and> allocated (nextVar example_shape) (Var 0) \<and> allocated (nextVar example_shape) (Var 1)
   \<and> toBigInt 7 (\<lambda>i. if i = 1 then 1 else 0) (Var 0) = 0
   \<and> toBigInt 7 (\<lambda>i. if i = 1 then 1 else 0) (Var 1) = 1
   \<and> satisfiable_from 7 (nextVar example_shape) (\<lambda>i. if i = 1 then 1 else 0)
        (emitted example_shape
           (assertLessThanGeneric 7 (Var 0) (Var 1) assertBool example_shape))
   \<and> \<not> satisfiable_from 7 (nextVar example_shape) (\<lambda>i. if i = 1 then 1 else 0)
        (emitted example_shape
           (assertLessThanGeneric 7 (Var 1) (Var 1) assertBool example_shape))"
proof -
  have rc: "asserts_range 7 2 assertBool"
    by (rule assertBool_asserts_range [OF is_prime_7])
  have c: "2 * 2 \<le> (7::int)" by simp
  have al: "allocated (nextVar example_shape) (Var 0)" "allocated (nextVar example_shape) (Var 1)"
    by (simp_all add: example_shape_def)
  have v: "toBigInt 7 (\<lambda>i. if i = 1 then 1 else 0) (Var 0) = 0"
    "toBigInt 7 (\<lambda>i. if i = 1 then 1 else 0) (Var 1) = 1"
    by (simp_all add: Fp_mod_def)
  have 1: "satisfiable_from 7 (nextVar example_shape) (\<lambda>i. if i = 1 then 1 else 0)
        (emitted example_shape
           (assertLessThanGeneric 7 (Var 0) (Var 1) assertBool example_shape))"
    using assertLessThanGeneric_satisfiable_iff [OF rc c al(1) al(2),
        of "\<lambda>i. if i = 1 then 1 else 0"]
    by (simp add: Fp_mod_def)
  have 2: "\<not> satisfiable_from 7 (nextVar example_shape) (\<lambda>i. if i = 1 then 1 else 0)
        (emitted example_shape
           (assertLessThanGeneric 7 (Var 1) (Var 1) assertBool example_shape))"
    using assertLessThanGeneric_satisfiable_iff [OF rc c al(2) al(2),
        of "\<lambda>i. if i = 1 then 1 else 0"]
    by (simp add: Fp_mod_def)
  show ?thesis using rc c al v 1 2 by blast
qed

subsection \<open>\<^verbatim>\<open>compareCompatible\<close> in prover mode\<close>

lemma sizeInBits_lower: "0 < p \<Longrightarrow> 2 ^ (sizeInBits p - 1) \<le> p"
proof (induction p rule: sizeInBits.induct)
  case (1 p)
  show ?case
  proof (cases "p div 2 = 0")
    case True
    then have "sizeInBits (p div 2) = 0" by (simp add: sizeInBits.simps)
    then have "sizeInBits p = 1" using "1.prems" by (simp add: sizeInBits.simps [of p])
    then show ?thesis using "1.prems" by simp
  next
    case False
    then have pos: "0 < p div 2" using "1.prems" by (simp add: pos_imp_zdiv_pos_iff)
    then have ih: "2 ^ (sizeInBits (p div 2) - 1) \<le> p div 2" using "1.IH" "1.prems" by simp
    have "sizeInBits (p div 2) = Suc (sizeInBits (p div 2 div 2))"
      using pos by (simp add: sizeInBits.simps [of "p div 2"])
    then obtain k where k: "sizeInBits (p div 2) = Suc k" by blast
    have "sizeInBits p = Suc (Suc k)" using "1.prems" k by (simp add: sizeInBits.simps [of p])
    then have "(2::int) ^ (sizeInBits p - 1) = 2 * 2 ^ (sizeInBits (p div 2) - 1)"
      using k by simp
    also have "\<dots> \<le> 2 * (p div 2)" using ih by simp
    also have "\<dots> \<le> p" by simp
    finally show ?thesis .
  qed
qed

lemma maxLength_bound:
  assumes "0 < p" and "int n \<le> int (sizeInBits p) - 2"
  shows "2 ^ (n + 1) \<le> p"
proof -
  have "n + 1 \<le> sizeInBits p - 1" using assms(2) by linarith
  then have "(2::int) ^ (n + 1) \<le> 2 ^ (sizeInBits p - 1)"
    by (intro power_increasing) simp_all
  then show ?thesis using sizeInBits_lower [OF assms(1)] by linarith
qed

lemma Bool_and_fst: "fst (Bool_and p a b s) = createBool (Var (nextVar s))"
  by (simp add: Bool_and_def exists_def Let_def split: prod.splits)

lemma Bool_and_witness:
  "mode s = Prover \<Longrightarrow>
     witness (snd (Bool_and p a b s)) (nextVar s) =
       Fp_mod p (Fp_mul p (toBigInt p (witness s) (toField a)) (toBigInt p (witness s) (toField b)))"
  by (simp add: Bool_and_def exists_def Let_def assertMul_def split: prod.splits)

lemma Bool_and_frame: "i < nextVar s \<Longrightarrow> witness (snd (Bool_and p a b s)) i = witness s i"
  by (simp add: Bool_and_def exists_def Let_def assertMul_def split: prod.splits mode.splits)

lemma any_frame: "i < nextVar s \<Longrightarrow> witness (snd (any p xs s)) i = witness s i"
  by (simp add: any_isZero isZero_frame)

lemma any_nextVar: "nextVar (snd (any p xs s)) = nextVar s + 2"
  by (simp add: any_isZero isZero_nextVar)

lemma any_mode: "mode (snd (any p xs s)) = mode s"
  by (simp add: any_isZero isZero_mode)


lemma checkRangesAsProver_in_range:
  "toBigInt p (witness s) x < c \<Longrightarrow> toBigInt p (witness s) y < c \<Longrightarrow>
     checkRangesAsProver p x y c s = (Inr (), s)"
  by (cases "mode s") (auto simp: checkRangesAsProver_def asProver_def Let_def)

lemma checkRangesAsProver_error:
  "fst (checkRangesAsProver p x y c s) = Inl e \<Longrightarrow> e = ComparisonOutOfRange"
  by (cases "mode s") (auto simp: checkRangesAsProver_def asProver_def Let_def split: if_splits)

lemma checkRangesAsProver_shape:
  "mode s = ConstraintShape \<Longrightarrow> checkRangesAsProver p x y c s = (Inr (), s)"
  by (simp add: checkRangesAsProver_def asProver_def)

lemma shiftLeft_nat: "shiftLeft 1 (int n) = push_bit n 1"
  by (simp add: shiftLeft_def)

lemma shiftLeft_negative: "k < 0 \<Longrightarrow> shiftLeft 1 k = 0"
  by (simp add: shiftLeft_def drop_bit_eq_div)

lemma element_nat: "n < length xs \<Longrightarrow> element xs (int n) = Some (xs ! n)"
  by (simp add: element_def)

lemma slice0_nat: "slice0 xs (int n) = take n xs"
  by (simp add: slice0_def)

lemma compareCompatible_too_large:
  "\<not> number_le n (int (sizeInBits p) - 2) \<Longrightarrow>
     compareCompatible p x y n s = (Inl BitLengthTooLarge, s)"
  by (simp add: compareCompatible_def)

lemma compareCompatible_not_integer:
  "number_le n (int (sizeInBits p) - 2) \<Longrightarrow> BigInt n = Inl e \<Longrightarrow>
     compareCompatible p x y n s = (Inl e, s)"
  by (simp add: compareCompatible_def)

lemma compareCompatible_out_of_range:
  assumes "k \<le> int (sizeInBits p) - 2"
    and "checkRangesAsProver p x y (shiftLeft 1 k) s = (Inl e, t)"
  shows "compareCompatible p x y (Integer k) s = (Inl e, t)"
  using assms by (simp add: compareCompatible_def)


lemma compareCompatible_minus_one:
  assumes "0 < sizeInBits p" and "checkRangesAsProver p x y 0 s = (Inr (), s)"
  shows "compareCompatible p x y (Integer (- 1)) s =
     (Inl TypeError,
      snd (any p [] (snd (unpack p (Sub (Add (createField p 0) y) x) 0 s))))"
proof -
  have "(- 1 :: int) \<le> int (sizeInBits p) - 2" using assms(1) by linarith
  moreover have "shiftLeft 1 (- 1) = 0" by (simp add: shiftLeft_negative)
  ultimately show ?thesis
    using assms
    by (simp add: compareCompatible_def element_def slice0_def Let_def case_prod_beta
        unpack_fst)
qed

lemma compareCompatible_in_range:
  assumes "int n \<le> int (sizeInBits p) - 2"
    and "checkRangesAsProver p x y (push_bit n 1) s = (Inr (), s)"
  shows "compareCompatible p x y (Integer (int n)) s =
     (let z = Sub (Add (createField p (push_bit n 1)) y) x;
          zBits = fst (unpack p z (n + 1) s);
          s1 = snd (unpack p z (n + 1) s);
          notAllZeros = fst (any p (take n zBits) s1);
          s2 = snd (any p (take n zBits) s1)
      in (Inr (zBits ! n, fst (Bool_and p (zBits ! n) notAllZeros s2)),
          snd (Bool_and p (zBits ! n) notAllZeros s2)))"
proof -
  have k: "nat (int n + 1) = n + 1" by simp
  have e: "element (fst (unpack p z (Suc n) s)) (int n) = Some (fst (unpack p z (Suc n) s) ! n)"
    for z
    by (rule element_nat) (simp add: unpack_length)
  show ?thesis
    using assms
    by (simp add: compareCompatible_def shiftLeft_nat k e slice0_nat Let_def case_prod_beta
        del: of_nat_add of_nat_Suc)
qed

lemma low_bits_zero_iff:
  fixes z :: int
  shows "(\<forall>i<n. drop_bit i z AND 1 = 0) = (z mod 2 ^ n = 0)"
proof -
  have nn: "\<forall>i \<in> {..<n}. 0 \<le> (drop_bit i z AND 1) * 2 ^ i"
    by (simp add: and_one_eq)
  have "(z mod 2 ^ n = 0) = ((\<Sum>i<n. (drop_bit i z AND 1) * 2 ^ i) = 0)"
    by (simp only: bits_sum_digits)
  also have "\<dots> = (\<forall>i \<in> {..<n}. (drop_bit i z AND 1) * 2 ^ i = 0)"
    using nn by (intro sum_nonneg_eq_0_iff) simp_all
  also have "\<dots> = (\<forall>i<n. drop_bit i z AND 1 = 0)" by auto
  finally show ?thesis by simp
qed

lemma carry_bit:
  fixes x y :: int
  assumes "0 \<le> x" "x < 2 ^ n" "0 \<le> y" "y < 2 ^ n"
  shows "drop_bit n (2 ^ n + y - x) AND 1 = (if x \<le> y then 1 else 0)"
proof (cases "x \<le> y")
  case True
  have "(2 ^ n + y - x) div 2 ^ n = ((y - x) + 2 ^ n * 1) div 2 ^ n"
    by (simp add: algebra_simps)
  also have "\<dots> = 1 + (y - x) div 2 ^ n"
    by (rule div_mult_self2) simp
  also have "(y - x) div 2 ^ n = 0"
    using True assms by (intro div_pos_pos_trivial) simp_all
  finally have "(2 ^ n + y - x) div 2 ^ n = 1" by simp
  then show ?thesis using True by (simp add: and_one_eq drop_bit_eq_div)
next
  case False
  have "(2 ^ n + y - x) div 2 ^ n = 0"
    using False assms by (intro div_pos_pos_trivial) simp_all
  then show ?thesis using False by (simp add: and_one_eq drop_bit_eq_div)
qed

lemma low_bits_of_difference:
  fixes x y :: int
  assumes "0 \<le> x" "x < 2 ^ n" "0 \<le> y" "y < 2 ^ n"
  shows "((2 ^ n + y - x) mod 2 ^ n = 0) = (x = y)"
proof -
  consider "x = y" | "x < y" | "y < x" by linarith
  then show ?thesis
  proof cases
    case 1
    then show ?thesis by simp
  next
    case 2
    have "(2 ^ n + y - x) mod 2 ^ n = (y - x) mod 2 ^ n"
      by (metis add_diff_eq mod_add_self1)
    also have "\<dots> = y - x" using 2 assms by simp
    finally show ?thesis using 2 by simp
  next
    case 3
    have "(2 ^ n + y - x) mod 2 ^ n = 2 ^ n + y - x" using 3 assms by simp
    then show ?thesis using 3 assms by simp
  qed
qed

lemma int_less_two_power: "int n < 2 ^ n"
proof (induction n)
  case 0
  then show ?case by simp
next
  case (Suc n)
  have "(1::int) \<le> 2 ^ n" by simp
  moreover have "int n < 2 ^ n" by (rule Suc)
  ultimately have "1 + int n < 2 * 2 ^ n" by linarith
  then show ?case by simp
qed

lemma compareCompatible_prover_values:
  assumes p: "is_prime p" and n: "int n \<le> int (sizeInBits p) - 2" and m: "mode s = Prover"
    and ax: "allocated (nextVar s) x" and ay: "allocated (nextVar s) y"
    and x: "toBigInt p (witness s) x < 2 ^ n" and y: "toBigInt p (witness s) y < 2 ^ n"
  shows "prover_values p (compareCompatible p x y (Integer (int n)) s) =
           Inr (if toBigInt p (witness s) x \<le> toBigInt p (witness s) y then 1 else 0,
                if toBigInt p (witness s) x < toBigInt p (witness s) y then 1 else 0)"
proof -
  have p1: "1 < p" using p by (rule is_prime_gt1)
  let ?x = "toBigInt p (witness s) x" and ?y = "toBigInt p (witness s) y"
  define N where "N = nextVar s"
  define z where "z = Sub (Add (createField p (push_bit n 1)) y) x"
  define zBits where "zBits = fst (unpack p z (n + 1) s)"
  define s1 where "s1 = snd (unpack p z (n + 1) s)"
  define pre where "pre = take n zBits"
  define anyw where "anyw = fst (any p pre s1)"
  define s2 where "s2 = snd (any p pre s1)"
  define le where "le = zBits ! n"
  define lt where "lt = fst (Bool_and p le anyw s2)"
  define s3 where "s3 = snd (Bool_and p le anyw s2)"
  define z0 where "z0 = 2 ^ n + ?y - ?x"
  have rx: "0 \<le> ?x" and ry: "0 \<le> ?y"
    using toBigInt_range [of p "witness s" x] toBigInt_range [of p "witness s" y] p1 by simp_all
  have pw: "2 ^ (n + 1) \<le> p" using n p1 by (intro maxLength_bound) simp_all
  have np: "int n < p"
  proof -
    have "int n < 2 ^ n" by (rule int_less_two_power)
    also have "\<dots> \<le> 2 ^ (n + 1)" by simp
    finally show ?thesis using pw by linarith
  qed
  have cr: "checkRangesAsProver p x y (push_bit n 1) s = (Inr (), s)"
    by (rule checkRangesAsProver_in_range) (simp_all add: x y)
  have cc: "compareCompatible p x y (Integer (int n)) s = (Inr (le, lt), s3)"
    using compareCompatible_in_range [OF n cr]
    by (simp add: Let_def z_def zBits_def s1_def pre_def anyw_def s2_def le_def lt_def s3_def)
  have zr: "0 \<le> z0" "z0 < p" using rx ry x y pw by (simp_all add: z0_def)
  have "toBigInt p (witness s) z = z0 mod p"
    by (simp add: z_def z0_def createField_def Fp_mod_def Fp_add_def Fp_sub_def mod_simps)
  then have zv: "toBigInt p (witness s) z = z0" using zr by simp
  have az: "allocated (nextVar s) z" using ax ay by (simp add: z_def createField_def)
  have le: "le = createBool (Var (N + n))"
    by (simp add: le_def zBits_def unpack_nth N_def)
  have nv1: "nextVar s1 = N + n + 1" by (simp add: s1_def unpack_nextVar N_def)
  have m1: "mode s1 = Prover" using m by (simp add: s1_def unpack_mode)
  have nv2: "nextVar s2 = N + n + 3" by (simp add: s2_def any_nextVar nv1)
  have m2: "mode s2 = Prover" using m1 by (simp add: s2_def any_mode)
  have bit: "toBigInt p (witness s1) (Var (N + i)) = drop_bit i z0 AND 1" if "i < n + 1" for i
    using unpack_prover_bit [OF p1 m that, of x] unpack_prover_bit [OF p1 m that, of z]
    by (simp add: s1_def N_def zv)
  have pre: "pre = map (\<lambda>i. createBool (Var i)) [N..<N + n]"
    by (simp add: pre_def zBits_def unpack_fst take_map N_def)
  have pre_mem: "\<exists>i<n. b = createBool (Var (N + i))" if b: "b \<in> set pre" for b
  proof -
    obtain j where j: "N \<le> j" "j < N + n" "b = createBool (Var j)"
      using b unfolding pre by auto
    then have "j - N < n \<and> b = createBool (Var (N + (j - N)))" by simp
    then show ?thesis by blast
  qed
  have pre_in: "createBool (Var (N + i)) \<in> set pre" if "i < n" for i
    using that unfolding pre by simp
  have pre_al: "allocated (nextVar s1) (toField b)" if "b \<in> set pre" for b
    using pre_mem [OF that] by (auto simp: nv1)
  have pre_val: "toBigInt p (witness s1) (toField b) = 0 \<or> toBigInt p (witness s1) (toField b) = 1"
    if bm: "b \<in> set pre" for b
  proof -
    obtain i where i: "i < n" "b = createBool (Var (N + i))" using pre_mem [OF bm] by blast
    have "toBigInt p (witness s1) (Var (N + i)) = drop_bit i z0 AND 1"
      using i(1) by (intro bit) simp
    then show ?thesis unfolding i(2) Bool.sel using bit_digit [of i z0] by simp
  qed
  have ex: "(\<exists>b \<in> set pre. toBigInt p (witness s1) (toField b) = 1) = (?x \<noteq> ?y)"
  proof -
    have "(\<exists>b \<in> set pre. toBigInt p (witness s1) (toField b) = 1) =
          (\<exists>i<n. drop_bit i z0 AND 1 = 1)"
    proof
      assume "\<exists>b \<in> set pre. toBigInt p (witness s1) (toField b) = 1"
      then obtain b where b: "b \<in> set pre" "toBigInt p (witness s1) (toField b) = 1" by blast
      obtain i where i: "i < n" "b = createBool (Var (N + i))" using pre_mem [OF b(1)] by blast
      have "toBigInt p (witness s1) (Var (N + i)) = drop_bit i z0 AND 1"
        using i(1) by (intro bit) simp
      then have "drop_bit i z0 AND 1 = 1" using b(2) unfolding i(2) Bool.sel by simp
      then show "\<exists>i<n. drop_bit i z0 AND 1 = 1" using i(1) by blast
    next
      assume "\<exists>i<n. drop_bit i z0 AND 1 = 1"
      then obtain i where i: "i < n" "drop_bit i z0 AND 1 = 1" by blast
      have "toBigInt p (witness s1) (Var (N + i)) = drop_bit i z0 AND 1"
        using i(1) by (intro bit) simp
      then have "toBigInt p (witness s1) (toField (createBool (Var (N + i)))) = 1"
        using i(2) unfolding Bool.sel by simp
      then show "\<exists>b \<in> set pre. toBigInt p (witness s1) (toField b) = 1"
        using pre_in [OF i(1)] by blast
    qed
    also have "\<dots> = (\<not> (\<forall>i<n. drop_bit i z0 AND 1 = 0))"
      using bit_digit [of _ z0] by (metis zero_neq_one)
    also have "\<dots> = (z0 mod 2 ^ n \<noteq> 0)" by (simp only: low_bits_zero_iff)
    also have "\<dots> = (?x \<noteq> ?y)"
      unfolding z0_def using low_bits_of_difference [OF rx x ry y] by simp
    finally show ?thesis .
  qed
  have anyv: "toBigInt p (witness s2) (toField anyw) = (if ?x \<noteq> ?y then 1 else 0)"
  proof -
    have lp: "int (length pre) < p" using np by (simp add: pre)
    have "toBigInt p (witness s2) (toField anyw) =
            (if \<exists>b \<in> set pre. toBigInt p (witness s1) (toField b) = 1 then 1 else 0)"
      unfolding s2_def anyw_def by (rule any_prover(2) [OF p lp m1 pre_al pre_val])
    then show ?thesis by (simp only: ex)
  qed
  have w1: "Fp_mod p (witness s1 (N + n)) = (if ?x \<le> ?y then 1 else 0)"
  proof -
    have "toBigInt p (witness s1) (Var (N + n)) = drop_bit n z0 AND 1" by (rule bit) simp
    then show ?thesis unfolding z0_def using carry_bit [OF rx x ry y] by simp
  qed
  have w2: "witness s2 (N + n) = witness s1 (N + n)"
    unfolding s2_def by (rule any_frame) (simp add: nv1)
  have w3: "witness s3 (N + n) = witness s2 (N + n)"
    unfolding s3_def by (rule Bool_and_frame) (simp add: nv2)
  have lev2: "toBigInt p (witness s2) (toField le) = (if ?x \<le> ?y then 1 else 0)"
    unfolding le Bool.sel toBigInt.simps w2 by (rule w1)
  have lev3: "toBigInt p (witness s3) (toField le) = (if ?x \<le> ?y then 1 else 0)"
    unfolding le Bool.sel toBigInt.simps w3 w2 by (rule w1)
  have "lt = createBool (Var (nextVar s2))" by (simp add: lt_def Bool_and_fst)
  moreover have "witness s3 (nextVar s2) =
      Fp_mod p (Fp_mul p (toBigInt p (witness s2) (toField le)) (toBigInt p (witness s2) (toField anyw)))"
    unfolding s3_def by (rule Bool_and_witness [OF m2])
  ultimately have ltv3: "toBigInt p (witness s3) (toField lt) = (if ?x < ?y then 1 else 0)"
    using p1 by (simp add: lev2 anyv Fp_mod_def Fp_mul_def)
  show ?thesis
    unfolding cc by (simp add: prover_values_def lev3 ltv3)
qed

text \<open>
  Claim C3. In prover mode, for a prime modulus of at least 10 bits, so that \<open>n = 8\<close> is
  allowed, \<^verbatim>\<open>compareCompatible(x, y, 8)\<close> returns wires valued \<open>(lessOrEqual, less) = (1, 0)\<close>
  for \<open>x = 5, y = 5\<close>, \<open>(1, 1)\<close> for \<open>x = 3, y = 9\<close> and \<open>(0, 0)\<close> for \<open>x = 9, y = 3\<close>.
\<close>

theorem compareCompatible_examples:
  assumes "is_prime p" and "10 \<le> sizeInBits p" and "mode s = Prover"
    and "allocated (nextVar s) x" and "allocated (nextVar s) y"
  shows "(toBigInt p (witness s) x = 5 \<and> toBigInt p (witness s) y = 5 \<longrightarrow>
            prover_values p (compareCompatible p x y (Integer 8) s) = Inr (1, 0))
       \<and> (toBigInt p (witness s) x = 3 \<and> toBigInt p (witness s) y = 9 \<longrightarrow>
            prover_values p (compareCompatible p x y (Integer 8) s) = Inr (1, 1))
       \<and> (toBigInt p (witness s) x = 9 \<and> toBigInt p (witness s) y = 3 \<longrightarrow>
            prover_values p (compareCompatible p x y (Integer 8) s) = Inr (0, 0))"
proof -
  have n: "int 8 \<le> int (sizeInBits p) - 2" using assms(2) by simp
  have v: "prover_values p (compareCompatible p x y (Integer 8) s) =
           Inr (if toBigInt p (witness s) x \<le> toBigInt p (witness s) y then 1 else 0,
                if toBigInt p (witness s) x < toBigInt p (witness s) y then 1 else 0)"
    if "toBigInt p (witness s) x < 2 ^ 8" and "toBigInt p (witness s) y < 2 ^ 8"
    using compareCompatible_prover_values [OF assms(1) n assms(3,4,5) that] by simp
  show ?thesis
  proof (intro conjI impI)
    assume "toBigInt p (witness s) x = 5 \<and> toBigInt p (witness s) y = 5"
    then show "prover_values p (compareCompatible p x y (Integer 8) s) = Inr (1, 0)"
      using v by simp
  next
    assume "toBigInt p (witness s) x = 3 \<and> toBigInt p (witness s) y = 9"
    then show "prover_values p (compareCompatible p x y (Integer 8) s) = Inr (1, 1)"
      using v by simp
  next
    assume "toBigInt p (witness s) x = 9 \<and> toBigInt p (witness s) y = 3"
    then show "prover_values p (compareCompatible p x y (Integer 8) s) = Inr (0, 0)"
      using v by simp
  qed
qed

lemma is_prime_521: "is_prime 521"
  unfolding is_prime_def by code_simp

lemma sizeInBits_521: "sizeInBits 521 = 10"
  by (simp add: sizeInBits.simps)

theorem compareCompatible_examples_witness:
  "is_prime 521 \<and> 10 \<le> sizeInBits 521 \<and> mode example_prover = Prover
   \<and> prover_values 521 (compareCompatible 521 (Constant 5) (Constant 5) (Integer 8) example_prover)
        = Inr (1, 0)
   \<and> prover_values 521 (compareCompatible 521 (Constant 3) (Constant 9) (Integer 8) example_prover)
        = Inr (1, 1)
   \<and> prover_values 521 (compareCompatible 521 (Constant 9) (Constant 3) (Integer 8) example_prover)
        = Inr (0, 0)"
proof -
  have m: "mode example_prover = Prover" by (simp add: example_prover_def)
  have sz: "10 \<le> sizeInBits 521" by (simp add: sizeInBits_521)
  have a: "prover_values 521 (compareCompatible 521 (Constant 5) (Constant 5) (Integer 8) example_prover)
        = Inr (1, 0)"
    using compareCompatible_examples [OF is_prime_521 sz m, of "Constant 5" "Constant 5"]
    by (simp add: Fp_mod_def)
  have b: "prover_values 521 (compareCompatible 521 (Constant 3) (Constant 9) (Integer 8) example_prover)
        = Inr (1, 1)"
    using compareCompatible_examples [OF is_prime_521 sz m, of "Constant 3" "Constant 9"]
    by (simp add: Fp_mod_def)
  have c: "prover_values 521 (compareCompatible 521 (Constant 9) (Constant 3) (Integer 8) example_prover)
        = Inr (0, 0)"
    using compareCompatible_examples [OF is_prime_521 sz m, of "Constant 9" "Constant 3"]
    by (simp add: Fp_mod_def)
  show ?thesis using is_prime_521 sz m a b c by blast
qed

subsection \<open>\<^verbatim>\<open>compareCompatible\<close> and its argument \<open>n\<close>\<close>


lemma any_gates:
  "gates (snd (any p xs s)) =
     gates s @ [AssertMul (Var (nextVar s)) (sum_of p xs) (createField p 0),
                AssertMul (Var (Suc (nextVar s))) (sum_of p xs)
                  (Sub (createField p 1) (Var (nextVar s)))]"
  by (simp add: any_isZero isZero_gates)

lemma checkRangesAsProver_error_eq:
  "checkRangesAsProver p x y c s = (Inl e, t) \<Longrightarrow> e = ComparisonOutOfRange"
  using checkRangesAsProver_error [of p x y c s e] by simp

lemma BigInt_error: "BigInt n = Inl e \<Longrightarrow> e = RangeError"
  by (cases n) simp_all

lemma BigInt_integer: "BigInt n = Inr k \<Longrightarrow> n = Integer k"
  by (cases n) simp_all

lemma compareCompatible_bitLength_iff:
  "(fst (compareCompatible p x y n s) = Inl BitLengthTooLarge) =
     (\<not> number_le n (int (sizeInBits p) - 2))"
proof (cases "number_le n (int (sizeInBits p) - 2)")
  case False
  then show ?thesis by (simp add: compareCompatible_too_large)
next
  case le: True
  have "fst (compareCompatible p x y n s) \<noteq> Inl BitLengthTooLarge"
  proof (cases "BigInt n")
    case (Inl e)
    then have "compareCompatible p x y n s = (Inl RangeError, s)"
      using le BigInt_error [OF Inl] by (simp add: compareCompatible_not_integer)
    then show ?thesis by simp
  next
    case (Inr k)
    then have n: "n = Integer k" by (rule BigInt_integer)
    have kle: "k \<le> int (sizeInBits p) - 2" using le n by simp
    obtain r t where rt: "checkRangesAsProver p x y (shiftLeft 1 k) s = (r, t)"
      by (cases "checkRangesAsProver p x y (shiftLeft 1 k) s")
    show ?thesis
    proof (cases r)
      case (Inl e)
      then have "e = ComparisonOutOfRange" using rt checkRangesAsProver_error_eq by blast
      then show ?thesis
        using compareCompatible_out_of_range [OF kle, where x = x and y = y and s = s
            and e = e and t = t] rt Inl n by simp
    next
      case (Inr u)
      then show ?thesis
        using kle rt n
        by (simp add: compareCompatible_def Let_def case_prod_beta split: option.splits)
    qed
  qed
  then show ?thesis using le by simp
qed


text \<open>
  Claim C8, as the code has it. \<^verbatim>\<open>compareCompatible(x, y, n)\<close> raises its bit length
  error if and only if \<^verbatim>\<open>n <= maxLength\<close> is false, and then with the circuit unchanged, in
  either pass and whatever the values of \<open>x\<close> and \<open>y\<close>: no constraint has been emitted and
  no witness has been checked. For a bit length \<open>n\<close> that is a natural number, constructing
  the constraint shape raises an error if and only if \<open>n\<close> exceeds \<open>Fp.sizeInBits - 2\<close>.
\<close>

theorem compareCompatible_bitLength_error:
  "(\<not> number_le n (int (sizeInBits p) - 2) \<longrightarrow>
      compareCompatible p x y n s = (Inl BitLengthTooLarge, s))
   \<and> (fst (compareCompatible p x y n s) = Inl BitLengthTooLarge) =
       (\<not> number_le n (int (sizeInBits p) - 2))
   \<and> (mode s = ConstraintShape \<longrightarrow>
        (\<exists>e. fst (compareCompatible p x y (Integer (int k)) s) = Inl e) =
          (int (sizeInBits p) - 2 < int k))"
proof (intro conjI impI)
  assume "\<not> number_le n (int (sizeInBits p) - 2)"
  then show "compareCompatible p x y n s = (Inl BitLengthTooLarge, s)"
    by (rule compareCompatible_too_large)
next
  show "(fst (compareCompatible p x y n s) = Inl BitLengthTooLarge) =
       (\<not> number_le n (int (sizeInBits p) - 2))"
    by (rule compareCompatible_bitLength_iff)
next
  assume m: "mode s = ConstraintShape"
  show "(\<exists>e. fst (compareCompatible p x y (Integer (int k)) s) = Inl e) =
          (int (sizeInBits p) - 2 < int k)"
  proof (cases "int k \<le> int (sizeInBits p) - 2")
    case True
    have "checkRangesAsProver p x y (push_bit k 1) s = (Inr (), s)"
      using m by (rule checkRangesAsProver_shape)
    then have "\<exists>r. fst (compareCompatible p x y (Integer (int k)) s) = Inr r"
      using compareCompatible_in_range [OF True] by (simp add: Let_def)
    then show ?thesis using True by auto
  next
    case False
    then have "compareCompatible p x y (Integer (int k)) s = (Inl BitLengthTooLarge, s)"
      by (intro compareCompatible_too_large) simp
    then show ?thesis using False by simp
  qed
qed

theorem compareCompatible_bitLength_error_witness:
  "\<not> number_le (Integer 2) (int (sizeInBits 7) - 2) \<and> mode example_shape = ConstraintShape
   \<and> compareCompatible 7 (Var 0) (Var 1) (Integer 2) example_shape =
       (Inl BitLengthTooLarge, example_shape)
   \<and> compareCompatible 7 (Var 0) (Var 1) NaN example_prover =
       (Inl BitLengthTooLarge, example_prover)
   \<and> (\<exists>b. fst (compareCompatible 7 (Var 0) (Var 1) (Integer 1) example_shape) = Inr b)"
proof -
  have a: "\<not> number_le (Integer 2) (int (sizeInBits 7) - 2)"
    "\<not> number_le NaN (int (sizeInBits 7) - 2)" "\<not> int (sizeInBits 7) - 2 < int 1"
    by (simp_all add: sizeInBits_7)
  have m: "mode example_shape = ConstraintShape" by (simp add: example_shape_def)
  note t = compareCompatible_bitLength_error [where p = 7 and x = "Var 0" and y = "Var 1"]
  have 1: "compareCompatible 7 (Var 0) (Var 1) (Integer 2) example_shape =
       (Inl BitLengthTooLarge, example_shape)"
    using t [where n = "Integer 2" and s = example_shape] a by blast
  have 2: "compareCompatible 7 (Var 0) (Var 1) NaN example_prover =
       (Inl BitLengthTooLarge, example_prover)"
    using t [where n = NaN and s = example_prover] a by blast
  have "\<not> (\<exists>e. fst (compareCompatible 7 (Var 0) (Var 1) (Integer (int 1)) example_shape) = Inl e)"
    using t [where k = 1 and s = example_shape] a m by blast
  then have 3: "\<exists>b. fst (compareCompatible 7 (Var 0) (Var 1) (Integer 1) example_shape) = Inr b"
    by (cases "fst (compareCompatible 7 (Var 0) (Var 1) (Integer 1) example_shape)") auto
  show ?thesis using a m 1 2 3 by blast
qed

text \<open>
  The claim as the spec states it fails for an \<open>n\<close> that is negative or not an integer.
  For \<open>n = -1\<close> the length check passes, \<^verbatim>\<open>unpack(z, 0)\<close> and \<^verbatim>\<open>any([])\<close> emit three
  constraints, and \<^verbatim>\<open>zBits[-1].and(...)\<close> raises a \<^verbatim>\<open>TypeError\<close>; for \<open>n = 2.5\<close>,
  \<^verbatim>\<open>BigInt(n)\<close> raises a \<^verbatim>\<open>RangeError\<close>. Neither \<open>n\<close> exceeds the maximum, here \<open>8\<close>.
\<close>

theorem compareCompatible_error_below_maximum:
  "mode example_shape = ConstraintShape
   \<and> number_le (Integer (- 1)) (int (sizeInBits 521) - 2)
   \<and> fst (compareCompatible 521 (Var 0) (Var 1) (Integer (- 1)) example_shape) = Inl TypeError
   \<and> length (gates (snd (compareCompatible 521 (Var 0) (Var 1) (Integer (- 1)) example_shape))) = 3
   \<and> number_le (Fraction 2) (int (sizeInBits 521) - 2)
   \<and> compareCompatible 521 (Var 0) (Var 1) (Fraction 2) example_shape =
       (Inl RangeError, example_shape)"
proof -
  have m: "mode example_shape = ConstraintShape" by (simp add: example_shape_def)
  have sz: "0 < sizeInBits 521" by (simp add: sizeInBits_521)
  have cc: "compareCompatible 521 (Var 0) (Var 1) (Integer (- 1)) example_shape =
     (Inl TypeError,
      snd (any 521 [] (snd (unpack 521 (Sub (Add (createField 521 0) (Var 1)) (Var 0)) 0
            example_shape))))"
    by (rule compareCompatible_minus_one [OF sz checkRangesAsProver_shape [OF m]])
  have g: "length (gates (snd (compareCompatible 521 (Var 0) (Var 1) (Integer (- 1))
             example_shape))) = 3"
    unfolding cc by (simp add: any_gates unpack_gates example_shape_def)
  have fr: "compareCompatible 521 (Var 0) (Var 1) (Fraction 2) example_shape =
       (Inl RangeError, example_shape)"
    by (rule compareCompatible_not_integer) (simp_all add: sizeInBits_521)
  show ?thesis using m cc g fr by (simp add: sizeInBits_521)
qed

subsection \<open>Which boolean wires carry a boolean assertion\<close>

lemma any_no_assertBool: "\<not> list_ex is_AssertBool (emitted s (snd (any p xs s)))"
  by (simp add: any_emitted isZero_emitted)








end
